theory Spec2Isabelle
  imports Main
begin

section \<open>Strings and characters\<close>

text \<open>
  A JavaScript string is modelled as a \<open>string\<close>: one \<open>char\<close> per code unit. Every
  character test of the program is a test on ASCII characters, read through the code
  of the character.
\<close>

definition code :: "char \<Rightarrow> nat" where
  "code c = of_char c"

definition is_digit :: "char \<Rightarrow> bool" where
  "is_digit c = (48 \<le> code c \<and> code c \<le> 57)"

definition is_upper :: "char \<Rightarrow> bool" where
  "is_upper c = (65 \<le> code c \<and> code c \<le> 90)"

definition is_lower :: "char \<Rightarrow> bool" where
  "is_lower c = (97 \<le> code c \<and> code c \<le> 122)"

text \<open>The class \<open>\w\<close>: letters, digits and the underscore.\<close>

definition is_word :: "char \<Rightarrow> bool" where
  "is_word c = (is_digit c \<or> is_upper c \<or> is_lower c \<or> c = CHR ''_'')"

definition to_upper :: "char \<Rightarrow> char" where
  "to_upper c = (if is_lower c then char_of (code c - 32) else c)"

definition to_lower :: "char \<Rightarrow> char" where
  "to_lower c = (if is_upper c then char_of (code c + 32) else c)"

text \<open>\<open>s.slice(i, j)\<close> for \<open>0 \<le> i\<close>, \<open>0 \<le> j\<close>, and \<open>s.charAt(i)\<close> for any integer \<open>i\<close>:
  out of range it is the empty string.\<close>

definition slice :: "string \<Rightarrow> nat \<Rightarrow> nat \<Rightarrow> string" where
  "slice s i j = take (j - i) (drop i s)"

definition charAt :: "string \<Rightarrow> int \<Rightarrow> string" where
  "charAt s i = (if 0 \<le> i \<and> nat i < length s then [s ! nat i] else [])"

section \<open>Regular expressions\<close>

text \<open>
  The patterns of the program are values of \<open>rx\<close>, and matching follows the
  backtracking semantics of ECMAScript regular expressions: \<open>ms\<close> lists, in the order
  in which backtracking tries them, the states (end position, captures) in which a
  pattern can stop when started in a given state. The first element is the match
  that \<open>exec\<close> reports. The flag \<open>ic\<close> is the \<open>i\<close> flag.

  A repetition is greedy, and every iteration has to consume input (no pattern of the
  program has a repetition whose body can match the empty string).
\<close>

datatype citem = CChar char | CRange char char | CDigit | CWord

datatype rx =
    Eps
  | Cls bool "citem list"
  | Seq rx rx
  | Alt rx rx
  | Rep nat "nat option" rx
  | Grp nat rx
  | Look rx
  | NLook rx
  | Bol
  | Eol

type_synonym captures = "(nat \<times> string) list"
type_synonym mstate = "nat \<times> captures"

fun citem_has :: "citem \<Rightarrow> char \<Rightarrow> bool" where
  "citem_has (CChar a) c = (a = c)"
| "citem_has (CRange a b) c = (code a \<le> code c \<and> code c \<le> code b)"
| "citem_has CDigit c = is_digit c"
| "citem_has CWord c = is_word c"

text \<open>Under the \<open>i\<close> flag a character matches a class when some member of the class
  has the same canonical (upper-case) form.\<close>

definition cls_match :: "bool \<Rightarrow> citem list \<Rightarrow> char \<Rightarrow> bool" where
  "cls_match ic items c =
     (if ic then list_ex (\<lambda>it. citem_has it c \<or> citem_has it (to_upper c) \<or> citem_has it (to_lower c)) items
      else list_ex (\<lambda>it. citem_has it c) items)"

definition below :: "nat \<Rightarrow> nat option \<Rightarrow> bool" where
  "below k hi = (case hi of None \<Rightarrow> True | Some h \<Rightarrow> k < h)"

fun iter :: "(mstate \<Rightarrow> mstate list) \<Rightarrow> nat \<Rightarrow> nat \<Rightarrow> nat \<Rightarrow> nat option \<Rightarrow> mstate \<Rightarrow> mstate list" where
  "iter f 0 k lo hi st = (if lo \<le> k then [st] else [])"
| "iter f (Suc n) k lo hi st =
     (if below k hi
      then concat (map (iter f n (Suc k) lo hi) (filter (\<lambda>st'. fst st < fst st') (f st)))
      else [])
     @ (if lo \<le> k then [st] else [])"

fun ms :: "bool \<Rightarrow> rx \<Rightarrow> string \<Rightarrow> mstate \<Rightarrow> mstate list" where
  "ms ic Eps s st = [st]"
| "ms ic (Cls neg items) s st =
     (if fst st < length s \<and> (cls_match ic items (s ! fst st) \<noteq> neg)
      then [(Suc (fst st), snd st)] else [])"
| "ms ic (Seq r1 r2) s st = concat (map (ms ic r2 s) (ms ic r1 s st))"
| "ms ic (Alt r1 r2) s st = ms ic r1 s st @ ms ic r2 s st"
| "ms ic (Rep lo hi r) s st = iter (ms ic r s) (length s - fst st) 0 lo hi st"
| "ms ic (Grp n r) s st =
     map (\<lambda>st'. (fst st', (n, slice s (fst st) (fst st')) # snd st')) (ms ic r s st)"
| "ms ic (Look r) s st =
     (case ms ic r s st of [] \<Rightarrow> [] | st' # _ \<Rightarrow> [(fst st, snd st')])"
| "ms ic (NLook r) s st = (if ms ic r s st = [] then [st] else [])"
| "ms ic Bol s st = (if fst st = 0 then [st] else [])"
| "ms ic Eol s st = (if fst st = length s then [st] else [])"

text \<open>The result of \<open>exec\<close>: where the match starts and ends, and its captures.
  \<open>group m n\<close> is \<open>match[n]\<close>, with \<open>None\<close> for \<open>undefined\<close>.\<close>

record rmatch =
  m_index :: nat
  m_end :: nat
  m_caps :: captures

definition group :: "rmatch \<Rightarrow> nat \<Rightarrow> string option" where
  "group m n = map_of (m_caps m) n"

text \<open>\<open>exec\<close> searches from \<open>lastIndex\<close> (which is 0 for a pattern without the
  \<open>g\<close> flag) for the first position at which the pattern matches.\<close>

definition exec :: "bool \<Rightarrow> rx \<Rightarrow> string \<Rightarrow> nat \<Rightarrow> rmatch option" where
  "exec ic r s lastIndex =
     (case List.find (\<lambda>i. ms ic r s (i, []) \<noteq> []) [lastIndex ..< Suc (length s)] of
        None \<Rightarrow> None
      | Some i \<Rightarrow>
          (case ms ic r s (i, []) of
             [] \<Rightarrow> None
           | st # _ \<Rightarrow> Some \<lparr>m_index = i, m_end = fst st, m_caps = snd st\<rparr>))"

definition test :: "bool \<Rightarrow> rx \<Rightarrow> string \<Rightarrow> bool" where
  "test ic r s = (exec ic r s 0 \<noteq> None)"

text \<open>Pattern syntax: a literal string, \<open>?\<close>, \<open>+\<close> and \<open>*\<close>.\<close>

definition Chr :: "char \<Rightarrow> rx" where
  "Chr c = Cls False [CChar c]"

fun lit :: "string \<Rightarrow> rx" where
  "lit [] = Eps"
| "lit [c] = Chr c"
| "lit (c # cs) = Seq (Chr c) (lit cs)"

fun seqs :: "rx list \<Rightarrow> rx" where
  "seqs [] = Eps"
| "seqs [r] = r"
| "seqs (r # rs) = Seq r (seqs rs)"

fun alts :: "rx \<Rightarrow> rx list \<Rightarrow> rx" where
  "alts r [] = r"
| "alts r (r' # rs) = Alt r (alts r' rs)"

definition Opt :: "rx \<Rightarrow> rx" where
  "Opt r = Rep 0 (Some 1) r"

definition Plus :: "rx \<Rightarrow> rx" where
  "Plus r = Rep 1 None r"

definition Star :: "rx \<Rightarrow> rx" where
  "Star r = Rep 0 None r"

section \<open>The patterns of the program\<close>

text \<open>\<open>[\da-z][-\da-z]{0,38}\<close>\<close>

definition userGroup :: rx where
  "userGroup =
     Seq (Cls False [CDigit, CRange CHR ''a'' CHR ''z''])
         (Rep 0 (Some 38) (Cls False [CChar CHR ''-'', CDigit, CRange CHR ''a'' CHR ''z'']))"

text \<open>\<open>(?:\.git[\w-]|\.(?!git)|[\w-])+\<close>\<close>

definition projectGroup :: rx where
  "projectGroup =
     Plus (alts (Seq (lit ''.git'') (Cls False [CWord, CChar CHR ''-'']))
                [Seq (Chr CHR ''.'') (NLook (lit ''git'')),
                 Cls False [CWord, CChar CHR ''-'']])"

text \<open>\<open>(userGroup)\/(projectGroup)\<close>, the groups numbered as in \<open>linkRegex\<close>.\<close>

definition repoGroup :: rx where
  "repoGroup = seqs [Grp 1 userGroup, Chr CHR ''/'', Grp 2 projectGroup]"

definition hexClass :: rx where
  "hexClass = Cls False [CRange CHR ''a'' CHR ''f'', CDigit]"

text \<open>\<open>^https?:\/\/github\.com\/(user)\/(project)\/(commit|compare|issues|pull)\/([a-f\d]+(?:\.{3}[a-f\d]+)?\/?(?=[#?]|$))\<close>
  with the flag \<open>i\<close>.\<close>

definition linkRegex :: rx where
  "linkRegex = seqs
     [Bol, lit ''http'', Opt (Chr CHR ''s''), lit ''://github.com/'',
      repoGroup,
      Chr CHR ''/'',
      Grp 3 (alts (lit ''commit'') [lit ''compare'', lit ''issues'', lit ''pull'']),
      Chr CHR ''/'',
      Grp 4 (seqs
        [Plus hexClass,
         Opt (Seq (Rep 3 (Some 3) (Chr CHR ''.'')) (Plus hexClass)),
         Opt (Chr CHR ''/''),
         Look (Alt (Cls False [CChar CHR ''#'', CChar CHR ''?'']) Eol)])]"

text \<open>\<open>(user)(?:\/(project))?(?:#([1-9]\d*)|@([a-f\d]{7,40}))\<close> with the flags \<open>gi\<close>.\<close>

definition referenceRegex :: rx where
  "referenceRegex = seqs
     [Grp 1 userGroup,
      Opt (Seq (Chr CHR ''/'') (Grp 2 projectGroup)),
      Alt (Seq (Chr CHR ''#'')
               (Grp 3 (Seq (Cls False [CRange CHR ''1'' CHR ''9'']) (Star (Cls False [CDigit])))))
          (Seq (Chr CHR ''@'') (Grp 4 (Rep 7 (Some 40) hexClass)))]"

text \<open>\<open>@(user(?:\/user)?)\<close> with the flags \<open>gi\<close>.\<close>

definition mentionRegex :: rx where
  "mentionRegex =
     Seq (Chr CHR ''@'') (Grp 1 (Seq userGroup (Opt (Seq (Chr CHR ''/'') userGroup))))"

text \<open>The patterns written inline in the program:
  \<open>/[\w`]/\<close> and \<open>/[/\w`]/\<close> (around a mention), \<open>/[^\t\n\r (@[{]/\<close> and \<open>/\w/\<close> (around
  a reference), \<open>/^[a-f\d]{4,40}\.{3}[a-f\d]{4,40}$/\<close> (a compare payload, without the
  flag \<open>i\<close>) and \<open>/[a-f]/i\<close>.\<close>

definition mentionBefore :: rx where
  "mentionBefore = Cls False [CWord, CChar CHR ''`'']"

definition mentionAfter :: rx where
  "mentionAfter = Cls False [CChar CHR ''/'', CWord, CChar CHR ''`'']"

definition referenceBefore :: rx where
  "referenceBefore =
     Cls True [CChar (CHR 0x09), CChar (CHR 0x0A), CChar (CHR 0x0D), CChar CHR '' '',
               CChar CHR ''('', CChar CHR ''@'', CChar CHR ''['', CChar CHR ''{'']"

definition referenceAfter :: rx where
  "referenceAfter = Cls False [CWord]"

definition compareRegex :: rx where
  "compareRegex = seqs
     [Bol, Rep 4 (Some 40) hexClass, Rep 3 (Some 3) (Chr CHR ''.''),
      Rep 4 (Some 40) hexClass, Eol]"

definition hexLetter :: rx where
  "hexLetter = Cls False [CRange CHR ''a'' CHR ''f'']"

section \<open>The syntax tree\<close>

text \<open>
  The nodes of the markdown tree that the program tells apart: text, inline code,
  strong, link (\<open>url\<close>, \<open>title\<close>, children) and link reference. Every other node is
  \<open>Other\<close>: its type, its value when it has one, and its children. Positions are
  left out.
\<close>

datatype node =
    Text string
  | InlineCode string
  | Strong "node list"
  | Link string "string option" "node list"
  | LinkReference "node list"
  | Other string "string option" "node list"

text \<open>
  Modelled from the spec: \<open>toString\<close> of the package mdast-util-to-string is not part of
  the sources. It gives the text content of a node: the value of a node that has one,
  and otherwise the contents of its children, concatenated.
\<close>

fun toString :: "node \<Rightarrow> string" where
  "toString (Text v) = v"
| "toString (InlineCode v) = v"
| "toString (Strong cs) = concat (map toString cs)"
| "toString (Link u t cs) = concat (map toString cs)"
| "toString (LinkReference cs) = concat (map toString cs)"
| "toString (Other k v cs) = (case v of Some x \<Rightarrow> x | None \<Rightarrow> concat (map toString cs))"

text \<open>What a JavaScript run can end in other than a value: a \<open>TypeError\<close> (a property
  of \<open>undefined\<close> is read), or no return at all.\<close>

datatype error = TypeError | NoReturn

section \<open>Options and URLs\<close>

text \<open>The values handed to \<open>buildUrl\<close>, by their \<open>type\<close>: mention, commit, issue and
  compare. A field that the program fills from a group of a match is an option:
  \<open>None\<close> is \<open>undefined\<close>, the value of a group that took no part in the match.\<close>

datatype BuildUrlValues =
    MentionValues "string option"
  | CommitValues "string option" "string option" "string option"
  | IssueValues "string option" "string option" string
  | CompareValues "string option" "string option" string string

type_synonym DefaultBuildUrl = "BuildUrlValues \<Rightarrow> string"

text \<open>
  The program calls the hook as a method, \<open>options.buildUrl(values, defaultBuildUrl)\<close>:
  inside a hook that is not an arrow function \<open>this\<close> is the options object. The
  receiver holds what such a hook can read there besides itself, the two other
  options.
\<close>

record Receiver =
  this_repository :: "string option"
  this_mentionStrong :: "bool option"

type_synonym BuildUrl = "Receiver \<Rightarrow> BuildUrlValues \<Rightarrow> DefaultBuildUrl \<Rightarrow> string option"

text \<open>The options: each may be absent. The result \<open>false\<close> of a \<open>buildUrl\<close> hook is
  \<open>None\<close>.\<close>

record Options =
  repository :: "string option"
  mentionStrong :: "bool option"
  buildUrlOpt :: "BuildUrl option"

definition denyMention :: "string set" where
  "denyMention = {''mention'', ''mentions''}"

definition minShaLength :: nat where
  "minShaLength = 7"

text \<open>\<open>sha.slice(0, minShaLength)\<close>\<close>

definition abbr :: "string \<Rightarrow> string" where
  "abbr sha = slice sha 0 minShaLength"

text \<open>\<open>Array.prototype.join\<close>: an \<open>undefined\<close> element is joined as the empty string.\<close>

fun join :: "string \<Rightarrow> string option list \<Rightarrow> string" where
  "join sep [] = []"
| "join sep [x] = (case x of None \<Rightarrow> [] | Some v \<Rightarrow> v)"
| "join sep (x # xs) = (case x of None \<Rightarrow> [] | Some v \<Rightarrow> v) @ sep @ join sep xs"

fun defaultBuildUrl :: "BuildUrlValues \<Rightarrow> string" where
  "defaultBuildUrl (MentionValues user) = join ''/'' [Some ''https://github.com'', user]"
| "defaultBuildUrl (CommitValues user project hash) =
     join ''/'' [Some ''https://github.com'', user, project, Some ''commit'', hash]"
| "defaultBuildUrl (IssueValues user project no) =
     join ''/'' [Some ''https://github.com'', user, project, Some ''issues'', Some no]"
| "defaultBuildUrl (CompareValues user project base compare) =
     join ''/'' [Some ''https://github.com'', user, project, Some ''compare'',
                 Some (base @ ''...'' @ compare)]"

text \<open>The receiver of a call \<open>options.buildUrl(...)\<close>.\<close>

definition receiver :: "Options \<Rightarrow> Receiver" where
  "receiver options =
     \<lparr>this_repository = repository options, this_mentionStrong = mentionStrong options\<rparr>"

definition buildUrl :: "Options \<Rightarrow> BuildUrlValues \<Rightarrow> string option" where
  "buildUrl options vals =
     (case buildUrlOpt options of
        Some hook \<Rightarrow> hook (receiver options) vals defaultBuildUrl
      | None \<Rightarrow> Some (defaultBuildUrl vals))"

section \<open>Replacing mentions and references\<close>

text \<open>The match object that \<open>findAndReplace\<close> hands to a replace function.\<close>

record Match =
  input :: string
  index :: nat

text \<open>
  A replace function returns \<open>false\<close> (\<open>None\<close>) or a node. \<open>if (!url) return false\<close>
  returns for the result \<open>false\<close> of \<open>buildUrl\<close> and for the empty string.
\<close>

definition replaceMention ::
  "Options \<Rightarrow> string \<Rightarrow> string option \<Rightarrow> Match \<Rightarrow> error + node option" where
  "replaceMention options val username match =
     (if test False mentionBefore (charAt (input match) (int (index match) - 1)) \<or>
         test False mentionAfter (charAt (input match) (int (index match) + int (length val))) \<or>
         (case username of Some name \<Rightarrow> name \<in> denyMention | None \<Rightarrow> False)
      then Inr None
      else
        (case buildUrl options (MentionValues username) of
           None \<Rightarrow> Inr None
         | Some url \<Rightarrow>
             if url = [] then Inr None
             else
               (let node = Text val;
                    node = (if mentionStrong options \<noteq> Some False then Strong [node] else node)
                in Inr (Some (Link url None [node])))))"

text \<open>
  \<open>no\<close> and \<open>hash\<close> are the third and fourth group of \<open>referenceRegex\<close>. \<open>no\<close> is
  truthy when it is a string that is not empty. \<open>abbr(hash)\<close> reads \<open>hash.slice\<close>,
  a \<open>TypeError\<close> when \<open>hash\<close> is \<open>undefined\<close>.
\<close>

definition replaceReference ::
  "Options \<Rightarrow> string \<Rightarrow> string option \<Rightarrow> string option \<Rightarrow> string option \<Rightarrow> string option
     \<Rightarrow> Match \<Rightarrow> error + node option" where
  "replaceReference options s0 user specificProject no hash match =
     (if test False referenceBefore (charAt (input match) (int (index match) - 1)) \<or>
         test False referenceAfter (charAt (input match) (int (index match) + int (length s0)))
      then Inr None
      else
        (let project = specificProject;
             url = (case no of
                      Some (c # cs) \<Rightarrow> buildUrl options (IssueValues user project (c # cs))
                    | _ \<Rightarrow> buildUrl options (CommitValues user project hash))
         in
         case url of
           None \<Rightarrow> Inr None
         | Some url \<Rightarrow>
             if url = [] then Inr None
             else
               (case no of
                  Some (c # cs) \<Rightarrow> Inr (Some (Link url None [Text (''#'' @ c # cs)]))
                | _ \<Rightarrow>
                    (case hash of
                       Some h \<Rightarrow> Inr (Some (Link url None [Text ''@'', InlineCode (abbr h)]))
                     | None \<Rightarrow> Inl TypeError))))"

section \<open>Existing links\<close>

text \<open>\<open>s.split(sep)\<close> for a separator that is not empty.\<close>

function split :: "string \<Rightarrow> string \<Rightarrow> string \<Rightarrow> string list" where
  "split sep acc [] = [rev acc]"
| "split sep acc (c # cs) =
     (if sep \<noteq> [] \<and> take (length sep) (c # cs) = sep
      then rev acc # split sep [] (drop (length sep) (c # cs))
      else split sep (c # acc) cs)"
  by pat_completeness auto
termination
  by (relation "measure (\<lambda>(sep, acc, s). length s)") auto

record ParsedLink =
  user :: string
  project :: string
  page :: string
  reference :: string
  comment :: bool

text \<open>
  \<open>parse\<close> reads \<open>node.url\<close>, which only a link has here: for another node it is
  \<open>undefined\<close>, \<open>url\<close> is the empty string, and \<open>linkRegex\<close> does not match.
  The four groups of \<open>linkRegex\<close> take part in every match; reading \<open>length\<close> or
  \<open>slice\<close> of an \<open>undefined\<close> one would be a \<open>TypeError\<close>, and so would be
  \<open>abbr\<close> of a part that \<open>split\<close> did not return.
\<close>

fun parse :: "node \<Rightarrow> error + ParsedLink option" where
  "parse (Link url title children) =
     (case exec True linkRegex url 0 of
        None \<Rightarrow> Inr None
      | Some m \<Rightarrow>
          (case children of
             [Text v] \<Rightarrow>
               if toString (Link url title children) \<noteq> url then Inr None
               else
                 (case (group m 1, group m 2, group m 3, group m 4) of
                    (Some m1, Some m2, Some m3, Some m4) \<Rightarrow>
                      if (m3 = ''commit'' \<and> (length m4 < 4 \<or> length m4 > 40)) \<or>
                         (m3 = ''compare'' \<and> \<not> test False compareRegex m4) \<or>
                         ((m3 = ''issues'' \<or> m3 = ''pull'') \<and> test True hexLetter m4) \<or>
                         length m2 \<ge> 100
                      then Inr None
                      else
                        (case (if m3 = ''compare''
                               then (case split ''...'' [] m4 of
                                       base # compare # _ \<Rightarrow> Inr (abbr base @ ''...'' @ abbr compare)
                                     | _ \<Rightarrow> Inl TypeError)
                               else Inr (abbr m4)) of
                           Inl e \<Rightarrow> Inl e
                         | Inr ref \<Rightarrow>
                             Inr (Some \<lparr>user = m1, project = m2, page = m3, reference = ref,
                                        comment = (charAt url (int (m_end m - m_index m)) = ''#'' \<and>
                                                   (m_end m - m_index m) + 1 < length url)\<rparr>))
                  | _ \<Rightarrow> Inl TypeError)
           | _ \<Rightarrow> Inr None))"
| "parse _ = Inr None"

text \<open>The children that the visitor of \<open>remarkGithub\<close> gives to a parsed link.\<close>

definition linkChildren :: "ParsedLink \<Rightarrow> node list" where
  "linkChildren link =
     (let comment_text = (if comment link then '' (comment)'' else []);
          base = user link
      in if page link = ''issues'' \<or> page link = ''pull''
         then [Text ((base @ ''#'') @ reference link @ comment_text)]
         else (if base \<noteq> [] then [Text (base @ ''@'')] else [])
              @ [InlineCode (reference link)]
              @ (if comment link then [Text comment_text] else []))"

text \<open>A list of results is a result: the first error, or all the values.\<close>

fun collect :: "(error + 'a) list \<Rightarrow> error + 'a list" where
  "collect [] = Inr []"
| "collect (x # xs) =
     (case x of
        Inl e \<Rightarrow> Inl e
      | Inr v \<Rightarrow> (case collect xs of Inl e \<Rightarrow> Inl e | Inr vs \<Rightarrow> Inr (v # vs)))"

text \<open>
  Modelled from the spec: \<open>visit\<close> of the package unist-util-visit is not part of the
  sources. \<open>visit(tree, "link", visitor)\<close> walks the tree from the root, calls the
  visitor on every link node, and goes on into the children that the node has after
  the call. The visitor of \<open>remarkGithub\<close> is written into the link case: a link that
  \<open>parse\<close> rejects keeps its children, which are walked; the children of a parsed
  link are new text and inline code nodes, and there is no link among them.
\<close>

fun visit :: "node \<Rightarrow> error + node" where
  "visit (Text v) = Inr (Text v)"
| "visit (InlineCode v) = Inr (InlineCode v)"
| "visit (Strong cs) =
     (case collect (map visit cs) of Inl e \<Rightarrow> Inl e | Inr cs' \<Rightarrow> Inr (Strong cs'))"
| "visit (Link url title cs) =
     (case parse (Link url title cs) of
        Inl e \<Rightarrow> Inl e
      | Inr None \<Rightarrow>
          (case collect (map visit cs) of Inl e \<Rightarrow> Inl e | Inr cs' \<Rightarrow> Inr (Link url title cs'))
      | Inr (Some link) \<Rightarrow> Inr (Link url title (linkChildren link)))"
| "visit (LinkReference cs) =
     (case collect (map visit cs) of Inl e \<Rightarrow> Inl e | Inr cs' \<Rightarrow> Inr (LinkReference cs'))"
| "visit (Other k v cs) =
     (case collect (map visit cs) of Inl e \<Rightarrow> Inl e | Inr cs' \<Rightarrow> Inr (Other k v cs'))"

section \<open>Scanning text\<close>

text \<open>
  Modelled from the spec: \<open>findAndReplace\<close> of the package mdast-util-find-and-replace
  is not part of the sources. For each pair of a pattern and a replace function, in
  the order of the list, it walks the tree and handles every text node that has a
  parent and no ancestor of an ignored type (here link and link reference). The
  handler scans the value of the text node from left to right with \<open>exec\<close>: a match
  for which the replace function returns a node is replaced by that node, the text
  before it and after the last one stays as text nodes, and the search goes on behind
  the match; a match for which it returns \<open>false\<close> is left as it is, part of the text,
  and the search goes on behind it as well: \<open>lastIndex\<close> of the pattern, which has
  the flag \<open>g\<close>, is the end of the last match. The nodes replace the text node among
  the children of its parent, and are not handled again for the same pair. A pattern
  that matches the empty string would keep \<open>exec\<close> at the same position for ever.

  A replace function gets the matched text, the groups and the match object.
\<close>

type_synonym ReplaceFunction = "string \<Rightarrow> (nat \<Rightarrow> string option) \<Rightarrow> Match \<Rightarrow> error + node option"

function handler_loop ::
  "bool \<Rightarrow> rx \<Rightarrow> ReplaceFunction \<Rightarrow> string \<Rightarrow> nat \<Rightarrow> nat \<Rightarrow> node list \<Rightarrow> bool \<Rightarrow> error + node list" where
  "handler_loop ic pat replace val start lastIndex nodes change =
     (case exec ic pat val lastIndex of
        None \<Rightarrow>
          Inr (if change
               then nodes @ (if start < length val then [Text (slice val start (length val))] else [])
               else [Text val])
      | Some m \<Rightarrow>
          (case replace (slice val (m_index m) (m_end m)) (group m) \<lparr>input = val, index = m_index m\<rparr> of
             Inl e \<Rightarrow> Inl e
           | Inr None \<Rightarrow>
               if m_end m \<le> lastIndex then Inl NoReturn
               else handler_loop ic pat replace val start (m_end m) nodes change
           | Inr (Some n) \<Rightarrow>
               if m_end m \<le> lastIndex then Inl NoReturn
               else handler_loop ic pat replace val (m_end m) (m_end m)
                      (nodes @ (if start \<noteq> m_index m then [Text (slice val start (m_index m))] else [])
                             @ [n])
                      True))"
  by pat_completeness auto
termination
proof (relation "measure (\<lambda>(ic, pat, replace, val, start, lastIndex, nodes, change).
                  Suc (length val) - lastIndex)")
  fix ic pat and replace :: ReplaceFunction and val :: string and lastIndex :: nat and m
  assume "exec ic pat val lastIndex = Some m"
  then obtain i where f: "List.find (\<lambda>i. ms ic pat val (i, []) \<noteq> []) [lastIndex ..< Suc (length val)] = Some i"
    and i: "m_index m = i"
    by (auto simp: exec_def split: option.splits list.splits)
  from f have "lastIndex \<le> i \<and> i < Suc (length val)"
    by (auto simp: find_Some_iff simp del: upt_Suc)
  with i have b: "lastIndex \<le> m_index m" "m_index m \<le> length val"
    by auto
  fix start :: nat and nodes :: "node list" and change :: bool
  assume e: "\<not> m_end m \<le> lastIndex"
  then show "((ic, pat, replace, val, start, m_end m, nodes, change),
         (ic, pat, replace, val, start, lastIndex, nodes, change))
        \<in> measure (\<lambda>(ic, pat, replace, val, start, lastIndex, nodes, change).
                  Suc (length val) - lastIndex)"
    using b by simp
  fix n :: node
  from e show "((ic, pat, replace, val, m_end m, m_end m,
          nodes @ (if start \<noteq> m_index m then [Text (slice val start (m_index m))] else []) @ [n], True),
         (ic, pat, replace, val, start, lastIndex, nodes, change))
        \<in> measure (\<lambda>(ic, pat, replace, val, start, lastIndex, nodes, change).
                  Suc (length val) - lastIndex)"
    using b by simp
qed simp

declare handler_loop.simps [simp del]

definition handler :: "bool \<times> rx \<times> ReplaceFunction \<Rightarrow> string \<Rightarrow> error + node list" where
  "handler pair val = (case pair of (ic, pat, replace) \<Rightarrow> handler_loop ic pat replace val 0 0 [] False)"

fun replaceIn :: "bool \<times> rx \<times> ReplaceFunction \<Rightarrow> node \<Rightarrow> error + node list" where
  "replaceIn pair (Text v) = handler pair v"
| "replaceIn pair (InlineCode v) = Inr [InlineCode v]"
| "replaceIn pair (Strong cs) =
     (case collect (map (replaceIn pair) cs) of Inl e \<Rightarrow> Inl e | Inr ns \<Rightarrow> Inr [Strong (concat ns)])"
| "replaceIn pair (Link url title cs) = Inr [Link url title cs]"
| "replaceIn pair (LinkReference cs) = Inr [LinkReference cs]"
| "replaceIn pair (Other k v cs) =
     (case collect (map (replaceIn pair) cs) of Inl e \<Rightarrow> Inl e | Inr ns \<Rightarrow> Inr [Other k v (concat ns)])"

text \<open>The root has no parent: a root that is a text node is not handled.\<close>

definition replaceTree :: "bool \<times> rx \<times> ReplaceFunction \<Rightarrow> node \<Rightarrow> error + node" where
  "replaceTree pair tree =
     (case tree of
        Text v \<Rightarrow> Inr tree
      | _ \<Rightarrow> (case replaceIn pair tree of Inl e \<Rightarrow> Inl e | Inr [t] \<Rightarrow> Inr t | Inr _ \<Rightarrow> Inr tree))"

fun findAndReplace :: "node \<Rightarrow> (bool \<times> rx \<times> ReplaceFunction) list \<Rightarrow> error + node" where
  "findAndReplace tree [] = Inr tree"
| "findAndReplace tree (pair # pairs) =
     (case replaceTree pair tree of Inl e \<Rightarrow> Inl e | Inr t \<Rightarrow> findAndReplace t pairs)"

section \<open>The plugin\<close>

text \<open>The two pairs that \<open>remarkGithub\<close> hands to \<open>findAndReplace\<close>: the replace
  function gets the matched text, the groups of the pattern in their order, and the
  match object.\<close>

definition referencePair :: "Options \<Rightarrow> bool \<times> rx \<times> ReplaceFunction" where
  "referencePair options =
     (True, referenceRegex, \<lambda>s0 g. replaceReference options s0 (g 1) (g 2) (g 3) (g 4))"

definition mentionPair :: "Options \<Rightarrow> bool \<times> rx \<times> ReplaceFunction" where
  "mentionPair options = (True, mentionRegex, \<lambda>s0 g. replaceMention options s0 (g 1))"

text \<open>The first pass of \<open>remarkGithub\<close>: references, then mentions, outside links.\<close>

definition scanText :: "Options \<Rightarrow> node \<Rightarrow> error + node" where
  "scanText options tree = findAndReplace tree [referencePair options, mentionPair options]"

text \<open>The transformer: the first pass, then the visit of the links.\<close>

definition remarkGithub :: "Options \<Rightarrow> node \<Rightarrow> error + node" where
  "remarkGithub options tree =
     (case scanText options tree of Inl e \<Rightarrow> Inl e | Inr t \<Rightarrow> visit t)"

text \<open>The options when none is given, and the hook of the demonstration application,
  which returns \<open>false\<close> for a mention and the default URL otherwise.\<close>

definition noOptions :: Options where
  "noOptions = \<lparr>repository = None, mentionStrong = None, buildUrlOpt = None\<rparr>"

definition appBuildUrl :: BuildUrl where
  "appBuildUrl this vals defaultBuild =
     (case vals of MentionValues u \<Rightarrow> None | _ \<Rightarrow> Some (defaultBuild vals))"

text \<open>A hook that returns the empty string for every value.\<close>

definition emptyBuildUrl :: BuildUrl where
  "emptyBuildUrl this vals defaultBuild = Some []"

text \<open>A hook that links to the repository of the options when there is one: the
  function \<open>buildUrl(values, defaultBuildUrl) { return this.repository ?
  "https://github.com/" + this.repository : defaultBuildUrl(values) }\<close>.\<close>

definition repositoryBuildUrl :: BuildUrl where
  "repositoryBuildUrl this vals defaultBuild =
     (case this_repository this of
        Some (c # cs) \<Rightarrow> Some (''https://github.com/'' @ c # cs)
      | _ \<Rightarrow> Some (defaultBuild vals))"

section \<open>What a pattern can capture\<close>

text \<open>Three readings of a pattern, used in the proofs: the groups it contains, the
  groups that take part in each of its matches, and a number of characters that each
  of its matches consumes at least.\<close>

fun groups :: "rx \<Rightarrow> nat set" where
  "groups (Seq a b) = groups a \<union> groups b"
| "groups (Alt a b) = groups a \<union> groups b"
| "groups (Rep lo hi r) = groups r"
| "groups (Grp n r) = insert n (groups r)"
| "groups (Look r) = groups r"
| "groups (NLook r) = groups r"
| "groups _ = {}"

fun must :: "rx \<Rightarrow> nat set" where
  "must (Seq a b) = must a \<union> must b"
| "must (Alt a b) = must a \<inter> must b"
| "must (Grp n r) = insert n (must r)"
| "must (Look r) = must r"
| "must _ = {}"

fun minlen :: "rx \<Rightarrow> nat" where
  "minlen (Cls neg items) = 1"
| "minlen (Seq a b) = minlen a + minlen b"
| "minlen (Alt a b) = min (minlen a) (minlen b)"
| "minlen (Grp n r) = minlen r"
| "minlen _ = 0"

text \<open>The part of \<open>linkRegex\<close> behind the repository.\<close>

definition linkTail :: rx where
  "linkTail = seqs
     [Chr CHR ''/'',
      Grp 3 (alts (lit ''commit'') [lit ''compare'', lit ''issues'', lit ''pull'']),
      Chr CHR ''/'',
      Grp 4 (seqs
        [Plus hexClass,
         Opt (Seq (Rep 3 (Some 3) (Chr CHR ''.'')) (Plus hexClass)),
         Opt (Chr CHR ''/''),
         Look (Alt (Cls False [CChar CHR ''#'', CChar CHR ''?'']) Eol)])]"

text \<open>\<open>follows G s st st'\<close>: the state \<open>st'\<close> is not before \<open>st\<close>, stays inside \<open>s\<close>,
  and adds to the captures of \<open>st\<close> only groups of \<open>G\<close>.\<close>

definition follows :: "nat set \<Rightarrow> string \<Rightarrow> mstate \<Rightarrow> mstate \<Rightarrow> bool" where
  "follows G s st st' =
     (fst st \<le> fst st' \<and> (fst st \<le> length s \<longrightarrow> fst st' \<le> length s) \<and>
      (\<exists>pre. snd st' = pre @ snd st \<and> fst ` set pre \<subseteq> G))"

text \<open>The result of a pass that returns, for the proofs about two passes.\<close>

definition visited :: "node \<Rightarrow> node" where
  "visited t = (case visit t of Inr t' \<Rightarrow> t' | Inl e \<Rightarrow> t)"

definition replaced :: "bool \<times> rx \<times> ReplaceFunction \<Rightarrow> node \<Rightarrow> node list" where
  "replaced pair n = (case replaceIn pair n of Inr ns \<Rightarrow> ns | Inl e \<Rightarrow> [n])"

section \<open>Properties of matching\<close>

lemma exec_None:
  "exec ic r s li = None \<longleftrightarrow> (\<forall>i. li \<le> i \<and> i \<le> length s \<longrightarrow> ms ic r s (i, []) = [])"
proof (cases "List.find (\<lambda>i. ms ic r s (i, []) \<noteq> []) [li ..< Suc (length s)]")
  case None
  then have "exec ic r s li = None"
    by (simp add: exec_def)
  moreover from None have "\<forall>i. li \<le> i \<and> i \<le> length s \<longrightarrow> ms ic r s (i, []) = []"
    by (auto simp: find_None_iff simp del: upt_Suc)
  ultimately show ?thesis by simp
next
  case (Some i)
  then have "li \<le> i" "i \<le> length s" "ms ic r s (i, []) \<noteq> []"
    by (auto simp: find_Some_iff simp del: upt_Suc)
  with Some show ?thesis
    by (auto simp: exec_def split: list.splits)
qed

lemma exec_Some:
  assumes "exec ic r s li = Some m"
  shows "li \<le> m_index m \<and> m_index m \<le> length s \<and>
         (\<exists>rest. ms ic r s (m_index m, []) = (m_end m, m_caps m) # rest) \<and>
         (\<forall>i. li \<le> i \<and> i < m_index m \<longrightarrow> ms ic r s (i, []) = [])"
proof -
  from assms obtain i where f: "List.find (\<lambda>i. ms ic r s (i, []) \<noteq> []) [li ..< Suc (length s)] = Some i"
    by (auto simp: exec_def split: option.splits)
  then obtain k where k: "k < length [li ..< Suc (length s)]" "ms ic r s ([li ..< Suc (length s)] ! k, []) \<noteq> []"
      "i = [li ..< Suc (length s)] ! k" "\<forall>j<k. \<not> ms ic r s ([li ..< Suc (length s)] ! j, []) \<noteq> []"
    unfolding find_Some_iff by blast
  from k(1) have kl: "li + k < Suc (length s)"
    by (simp del: upt_Suc)
  then have ik: "i = li + k"
    using k(3) by (simp del: upt_Suc)
  have "ms ic r s (j, []) = []" if "li \<le> j" "j < i" for j
  proof -
    from that ik have "j - li < k" by arith
    with k(4) have "ms ic r s ([li ..< Suc (length s)] ! (j - li), []) = []" by blast
    moreover have "[li ..< Suc (length s)] ! (j - li) = j"
      using that ik kl by (simp del: upt_Suc)
    ultimately show ?thesis by simp
  qed
  with k(2) kl ik have b: "li \<le> i" "i \<le> length s" "ms ic r s (i, []) \<noteq> []"
    "\<forall>j. li \<le> j \<and> j < i \<longrightarrow> ms ic r s (j, []) = []"
    by (auto simp del: upt_Suc)
  from assms f b show ?thesis
    by (auto simp: exec_def split: list.splits)
qed

lemma test_Cls: "test ic (Cls neg items) s = (\<exists>c \<in> set s. cls_match ic items c \<noteq> neg)"
proof -
  have "test ic (Cls neg items) s \<longleftrightarrow> (\<exists>i. i \<le> length s \<and> ms ic (Cls neg items) s (i, []) \<noteq> [])"
    unfolding test_def exec_None by auto
  also have "\<dots> \<longleftrightarrow> (\<exists>i < length s. cls_match ic items (s ! i) \<noteq> neg)"
    by auto
  also have "\<dots> \<longleftrightarrow> (\<exists>c \<in> set s. cls_match ic items c \<noteq> neg)"
    by (metis in_set_conv_nth)
  finally show ?thesis .
qed

lemma charAt_cases: "charAt s i = [] \<or> (\<exists>c. charAt s i = [c])"
  by (simp add: charAt_def)

lemma mentionBefore_test: "test False mentionBefore [c] = (is_word c \<or> c = CHR ''`'')"
  by (auto simp: mentionBefore_def test_Cls cls_match_def)

lemma mentionAfter_test: "test False mentionAfter [c] = (c = CHR ''/'' \<or> is_word c \<or> c = CHR ''`'')"
  by (auto simp: mentionAfter_def test_Cls cls_match_def)

lemma abbr_take: "abbr sha = take 7 sha"
  by (simp add: abbr_def slice_def minShaLength_def)

lemma follows_refl: "follows G s st st"
  by (simp add: follows_def)

lemma follows_trans:
  assumes "follows G s a b" "follows H s b c"
  shows "follows (G \<union> H) s a c"
proof -
  from assms(1) obtain p1 where p1: "snd b = p1 @ snd a" "fst ` set p1 \<subseteq> G"
    and a: "fst a \<le> fst b" "fst a \<le> length s \<longrightarrow> fst b \<le> length s"
    unfolding follows_def by blast
  from assms(2) obtain p2 where p2: "snd c = p2 @ snd b" "fst ` set p2 \<subseteq> H"
    and b: "fst b \<le> fst c" "fst b \<le> length s \<longrightarrow> fst c \<le> length s"
    unfolding follows_def by blast
  have "snd c = (p2 @ p1) @ snd a" "fst ` set (p2 @ p1) \<subseteq> G \<union> H"
    using p1 p2 by auto
  then have "\<exists>pre. snd c = pre @ snd a \<and> fst ` set pre \<subseteq> G \<union> H"
    by blast
  with a b show ?thesis
    unfolding follows_def by auto
qed

lemma follows_trans_same: "follows G s a b \<Longrightarrow> follows G s b c \<Longrightarrow> follows G s a c"
  using follows_trans [of G s a b G c] by simp

lemma follows_mono: "follows G s a b \<Longrightarrow> G \<subseteq> H \<Longrightarrow> follows H s a b"
  unfolding follows_def by blast

lemma iter_follows:
  assumes f: "\<And>st st'. st' \<in> set (f st) \<Longrightarrow> follows G s st st'"
  shows "st' \<in> set (iter f n k lo hi st) \<Longrightarrow> follows G s st st'"
proof (induction n arbitrary: k st)
  case 0
  then show ?case
    by (auto simp: follows_refl split: if_splits)
next
  case (Suc n)
  from Suc.prems consider
      (steps) mid where "mid \<in> set (f st)" "st' \<in> set (iter f n (Suc k) lo hi mid)"
    | (stop) "st' = st"
    by (auto split: if_splits)
  then show ?case
  proof cases
    case steps
    from f [OF steps(1)] Suc.IH [OF steps(2)] show ?thesis
      by (rule follows_trans_same)
  next
    case stop
    then show ?thesis by (simp add: follows_refl)
  qed
qed

lemma ms_follows: "st' \<in> set (ms ic r s st) \<Longrightarrow> follows (groups r) s st st'"
proof (induction r arbitrary: st st')
  case Eps
  then show ?case by (simp add: follows_refl)
next
  case (Cls neg items)
  then show ?case by (auto simp: follows_def split: if_splits)
next
  case (Seq r1 r2)
  then obtain mid where m: "mid \<in> set (ms ic r1 s st)" "st' \<in> set (ms ic r2 s mid)"
    by auto
  from Seq.IH(1) [OF m(1)] Seq.IH(2) [OF m(2)] show ?case
    by (simp add: follows_trans)
next
  case (Alt r1 r2)
  then consider "st' \<in> set (ms ic r1 s st)" | "st' \<in> set (ms ic r2 s st)"
    by auto
  then show ?case
  proof cases
    case 1
    from Alt.IH(1) [OF this] show ?thesis by (rule follows_mono) simp
  next
    case 2
    from Alt.IH(2) [OF this] show ?thesis by (rule follows_mono) simp
  qed
next
  case (Rep lo hi r)
  then have "st' \<in> set (iter (ms ic r s) (length s - fst st) 0 lo hi st)"
    by simp
  then have "follows (groups r) s st st'"
    by (rule iter_follows [rotated]) (rule Rep.IH)
  then show ?case by simp
next
  case (Grp n r)
  then obtain st'' where a: "st'' \<in> set (ms ic r s st)"
    and b: "st' = (fst st'', (n, slice s (fst st) (fst st'')) # snd st'')"
    by auto
  from Grp.IH [OF a] obtain pre where p: "snd st'' = pre @ snd st" "fst ` set pre \<subseteq> groups r"
    and q: "fst st \<le> fst st''" "fst st \<le> length s \<longrightarrow> fst st'' \<le> length s"
    unfolding follows_def by blast
  have "snd st' = ((n, slice s (fst st) (fst st'')) # pre) @ snd st"
       "fst ` set ((n, slice s (fst st) (fst st'')) # pre) \<subseteq> groups (Grp n r)"
    using b p by auto
  then have "\<exists>pre. snd st' = pre @ snd st \<and> fst ` set pre \<subseteq> groups (Grp n r)"
    by blast
  with q b show ?case
    unfolding follows_def by simp
next
  case (Look r)
  show ?case
  proof (cases "ms ic r s st")
    case Nil
    with Look.prems show ?thesis by simp
  next
    case (Cons st'' rest)
    with Look.prems have b: "st' = (fst st, snd st'')" by simp
    from Cons have "st'' \<in> set (ms ic r s st)" by simp
    from Look.IH [OF this] b show ?thesis
      unfolding follows_def by simp
  qed
next
  case (NLook r)
  then show ?case by (auto simp: follows_refl split: if_splits)
next
  case Bol
  then show ?case by (auto simp: follows_refl split: if_splits)
next
  case Eol
  then show ?case by (auto simp: follows_refl split: if_splits)
qed

lemma map_of_prefix_keeps:
  assumes "n \<notin> fst ` set pre"
  shows "map_of (pre @ c) n = map_of c n"
proof -
  from assms have "map_of pre n = None"
    by (simp add: map_of_eq_None_iff)
  then show ?thesis
    by (simp add: map_add_def)
qed

lemma map_of_prefix_defined:
  assumes "map_of c n \<noteq> None"
  shows "map_of (pre @ c) n \<noteq> None"
  using assms by (cases "map_of pre n") (auto simp: map_add_def)

lemma ms_keeps:
  assumes "st' \<in> set (ms ic r s st)" "n \<notin> groups r"
  shows "map_of (snd st') n = map_of (snd st) n"
proof -
  from ms_follows [OF assms(1)] obtain pre where p: "snd st' = pre @ snd st" "fst ` set pre \<subseteq> groups r"
    unfolding follows_def by blast
  with assms(2) have "n \<notin> fst ` set pre" by blast
  then have "map_of (pre @ snd st) n = map_of (snd st) n"
    by (rule map_of_prefix_keeps)
  with p(1) show ?thesis
    by (simp only:)
qed

lemma ms_defined_stays:
  assumes "st' \<in> set (ms ic r s st)" "map_of (snd st) n \<noteq> None"
  shows "map_of (snd st') n \<noteq> None"
proof -
  from ms_follows [OF assms(1)] obtain pre where "snd st' = pre @ snd st"
    unfolding follows_def by blast
  moreover from assms(2) have "map_of (pre @ snd st) n \<noteq> None"
    by (rule map_of_prefix_defined)
  ultimately show ?thesis
    by metis
qed

lemma ms_bounds:
  assumes "st' \<in> set (ms ic r s st)"
  shows "fst st \<le> fst st'" and "fst st \<le> length s \<Longrightarrow> fst st' \<le> length s"
  using ms_follows [OF assms] unfolding follows_def by auto

lemma ms_must: "st' \<in> set (ms ic r s st) \<Longrightarrow> n \<in> must r \<Longrightarrow> map_of (snd st') n \<noteq> None"
proof (induction r arbitrary: st st')
  case (Seq r1 r2)
  then obtain mid where m: "mid \<in> set (ms ic r1 s st)" "st' \<in> set (ms ic r2 s mid)"
    by auto
  from Seq.prems(2) consider "n \<in> must r1" | "n \<in> must r2" by auto
  then show ?case
  proof cases
    case 1
    with Seq.IH(1) m(1) have "map_of (snd mid) n \<noteq> None" by blast
    with m(2) show ?thesis by (rule ms_defined_stays)
  next
    case 2
    with Seq.IH(2) m(2) show ?thesis by blast
  qed
next
  case (Alt r1 r2)
  from Alt.prems(2) have n: "n \<in> must r1" "n \<in> must r2" by auto
  from Alt.prems(1) consider "st' \<in> set (ms ic r1 s st)" | "st' \<in> set (ms ic r2 s st)"
    by auto
  then show ?case
  proof cases
    case 1
    with Alt.IH(1) n(1) show ?thesis by blast
  next
    case 2
    with Alt.IH(2) n(2) show ?thesis by blast
  qed
next
  case (Grp k r)
  then obtain st'' where a: "st'' \<in> set (ms ic r s st)"
    and b: "st' = (fst st'', (k, slice s (fst st) (fst st'')) # snd st'')"
    by auto
  show ?case
  proof (cases "n = k")
    case True
    with b show ?thesis by simp
  next
    case False
    with Grp.prems(2) have "n \<in> must r" by simp
    with Grp.IH a have "map_of (snd st'') n \<noteq> None" by blast
    with b False show ?thesis by simp
  qed
next
  case (Look r)
  show ?case
  proof (cases "ms ic r s st")
    case Nil
    with Look.prems show ?thesis by simp
  next
    case (Cons st'' rest)
    with Look.prems have b: "st' = (fst st, snd st'')" by simp
    from Cons have "st'' \<in> set (ms ic r s st)" by simp
    with Look.IH Look.prems(2) have "map_of (snd st'') n \<noteq> None" by simp
    with b show ?thesis by simp
  qed
qed simp_all

lemma ms_minlen: "st' \<in> set (ms ic r s st) \<Longrightarrow> fst st + minlen r \<le> fst st'"
proof (induction r arbitrary: st st')
  case (Seq r1 r2)
  then obtain mid where m: "mid \<in> set (ms ic r1 s st)" "st' \<in> set (ms ic r2 s mid)"
    by auto
  from Seq.IH(1) [OF m(1)] Seq.IH(2) [OF m(2)] show ?case by simp
next
  case (Cls neg items)
  then show ?case by (auto split: if_splits)
next
  case (Alt r1 r2)
  from Alt.prems consider "st' \<in> set (ms ic r1 s st)" | "st' \<in> set (ms ic r2 s st)"
    by auto
  then show ?case
  proof cases
    case 1
    from Alt.IH(1) [OF this] show ?thesis by simp
  next
    case 2
    from Alt.IH(2) [OF this] show ?thesis by simp
  qed
next
  case (Grp k r)
  then obtain st'' where a: "st'' \<in> set (ms ic r s st)" and b: "fst st' = fst st''"
    by auto
  from Grp.IH [OF a] b show ?case by simp
next
  case (Rep lo hi r)
  from ms_bounds(1) [OF this(2)] show ?case by simp
next
  case (Look r)
  from ms_bounds(1) [OF this(2)] show ?case by simp
next
  case (NLook r)
  from ms_bounds(1) [OF this(2)] show ?case by simp
next
  case Eps
  from ms_bounds(1) [OF this] show ?case by simp
next
  case Bol
  from ms_bounds(1) [OF this] show ?case by simp
next
  case Eol
  from ms_bounds(1) [OF this] show ?case by simp
qed

lemma ms_Seq_elim:
  assumes "st' \<in> set (ms ic (Seq r1 r2) s st)"
  obtains mid where "mid \<in> set (ms ic r1 s st)" "st' \<in> set (ms ic r2 s mid)"
  using assms by auto

section \<open>The replace functions\<close>

lemma charAt_before_start: "charAt s (int 0 - 1) = []"
  by (simp add: charAt_def)

lemma test_Cls_Nil: "test ic (Cls neg items) [] = False"
  by (simp add: test_Cls)

lemma join_first: "join sep (Some (c # cs) # xs) \<noteq> []"
  by (cases xs) simp_all

lemma defaultBuildUrl_not_empty: "defaultBuildUrl vals \<noteq> []"
  by (cases vals) (simp_all only: defaultBuildUrl.simps join_first not_False_eq_True)

lemma replaceMention_accepts:
  assumes "\<not> test False mentionBefore (charAt (input match) (int (index match) - 1))"
    and "\<not> test False mentionAfter (charAt (input match) (int (index match) + int (length val)))"
    and "\<forall>name. username = Some name \<longrightarrow> name \<notin> denyMention"
    and "buildUrl options (MentionValues username) = Some url" and "url \<noteq> []"
  shows "replaceMention options val username match =
           Inr (Some (Link url None
             [if mentionStrong options \<noteq> Some False then Strong [Text val] else Text val]))"
  using assms by (cases username) (simp_all add: replaceMention_def)

lemma replaceReference_issue:
  assumes "\<not> test False referenceBefore (charAt (input match) (int (index match) - 1))"
    and "\<not> test False referenceAfter (charAt (input match) (int (index match) + int (length s0)))"
    and "n \<noteq> []"
    and "buildUrl options (IssueValues usr proj n) = Some url" and "url \<noteq> []"
  shows "replaceReference options s0 usr proj (Some n) hash match =
           Inr (Some (Link url None [Text (''#'' @ n)]))"
  using assms by (cases n) (simp_all add: replaceReference_def)

lemma replaceReference_commit:
  assumes "\<not> test False referenceBefore (charAt (input match) (int (index match) - 1))"
    and "\<not> test False referenceAfter (charAt (input match) (int (index match) + int (length s0)))"
    and "buildUrl options (CommitValues usr proj (Some h)) = Some url" and "url \<noteq> []"
  shows "replaceReference options s0 usr proj None (Some h) match =
           Inr (Some (Link url None [Text ''@'', InlineCode (abbr h)]))"
  using assms by (simp add: replaceReference_def)

lemma replaceMention_suppressed:
  assumes "buildUrl options (MentionValues username) = None \<or>
           buildUrl options (MentionValues username) = Some []"
  shows "replaceMention options val username match = Inr None"
  using assms by (auto simp: replaceMention_def)

lemma replaceReference_issue_suppressed:
  assumes "buildUrl options (IssueValues usr proj (c # cs)) = None \<or>
           buildUrl options (IssueValues usr proj (c # cs)) = Some []"
  shows "replaceReference options s0 usr proj (Some (c # cs)) hash match = Inr None"
  using assms by (auto simp: replaceReference_def)

lemma replaceReference_commit_suppressed:
  assumes "buildUrl options (CommitValues usr proj hash) = None \<or>
           buildUrl options (CommitValues usr proj hash) = Some []"
  shows "replaceReference options s0 usr proj None hash match = Inr None"
  using assms by (auto simp: replaceReference_def)

section \<open>The scan of a text\<close>

lemma handler_loop_rejected:
  assumes "exec ic pat val lastIndex = Some m"
    and "replace (slice val (m_index m) (m_end m)) (group m) \<lparr>input = val, index = m_index m\<rparr> = Inr None"
    and "m_index m < m_end m"
  shows "handler_loop ic pat replace val start lastIndex nodes change =
         handler_loop ic pat replace val start (m_end m) nodes change"
proof -
  from exec_Some [OF assms(1)] assms(3) have "\<not> m_end m \<le> lastIndex"
    by simp
  with assms(1,2) show ?thesis
    by (subst handler_loop.simps) simp
qed

lemma handler_loop_accepted:
  assumes "exec ic pat val lastIndex = Some m"
    and "replace (slice val (m_index m) (m_end m)) (group m) \<lparr>input = val, index = m_index m\<rparr> =
           Inr (Some n)"
    and "m_index m < m_end m"
  shows "handler_loop ic pat replace val start lastIndex nodes change =
         handler_loop ic pat replace val (m_end m) (m_end m)
           (nodes @ (if start \<noteq> m_index m then [Text (slice val start (m_index m))] else []) @ [n]) True"
proof -
  from exec_Some [OF assms(1)] assms(3) have "\<not> m_end m \<le> lastIndex"
    by simp
  with assms(1,2) show ?thesis
    by (subst handler_loop.simps) simp
qed

lemma handler_loop_done:
  assumes "exec ic pat val lastIndex = None"
  shows "handler_loop ic pat replace val start lastIndex nodes change =
     Inr (if change
          then nodes @ (if start < length val then [Text (slice val start (length val))] else [])
          else [Text val])"
  using assms by (subst handler_loop.simps) simp

lemma handler_loop_all_rejected:
  "(\<And>m li. exec ic pat val li = Some m \<Longrightarrow>
      m_index m < m_end m \<and>
      replace (slice val (m_index m) (m_end m)) (group m) \<lparr>input = val, index = m_index m\<rparr> = Inr None) \<Longrightarrow>
   handler_loop ic pat replace val start lastIndex nodes change =
     Inr (if change
          then nodes @ (if start < length val then [Text (slice val start (length val))] else [])
          else [Text val])"
proof (induction ic pat replace val start lastIndex nodes change rule: handler_loop.induct)
  case (1 ic pat replace val start lastIndex nodes change)
  show ?case
  proof (cases "exec ic pat val lastIndex")
    case None
    then show ?thesis by (rule handler_loop_done)
  next
    case (Some m)
    from "1.prems" [OF Some] have e: "m_index m < m_end m"
      and r: "replace (slice val (m_index m) (m_end m)) (group m) \<lparr>input = val, index = m_index m\<rparr> = Inr None"
      by auto
    from exec_Some [OF Some] e have ne: "\<not> m_end m \<le> lastIndex"
      by simp
    have "handler_loop ic pat replace val start (m_end m) nodes change =
       Inr (if change
          then nodes @ (if start < length val then [Text (slice val start (length val))] else [])
          else [Text val])"
      by (rule "1.IH"(1) [OF Some r refl ne]) (rule "1.prems", assumption)
    with handler_loop_rejected [where replace = replace, OF Some r e] show ?thesis
      by simp
  qed
qed

text \<open>Every node of the result has a property that the nodes of the replace function
  and all text nodes have.\<close>

lemma handler_loop_nodes:
  "(\<And>m li. exec ic pat val li = Some m \<Longrightarrow>
      m_index m < m_end m \<and>
      (replace (slice val (m_index m) (m_end m)) (group m) \<lparr>input = val, index = m_index m\<rparr> = Inr None \<or>
       (\<exists>n. replace (slice val (m_index m) (m_end m)) (group m) \<lparr>input = val, index = m_index m\<rparr> =
              Inr (Some n) \<and> P n))) \<Longrightarrow>
   (\<And>x. x \<in> set nodes \<Longrightarrow> P x) \<Longrightarrow>
   (\<And>v. P (Text v)) \<Longrightarrow>
   \<exists>ns. handler_loop ic pat replace val start lastIndex nodes change = Inr ns \<and>
        (\<forall>x \<in> set ns. P x)"
proof (induction ic pat replace val start lastIndex nodes change rule: handler_loop.induct)
  case (1 ic pat replace val start lastIndex nodes change)
  show ?case
  proof (cases "exec ic pat val lastIndex")
    case None
    from "1.prems"(2,3) show ?thesis
      unfolding handler_loop_done [OF None] by auto
  next
    case (Some m)
    let ?r = "replace (slice val (m_index m) (m_end m)) (group m) \<lparr>input = val, index = m_index m\<rparr>"
    from "1.prems"(1) [OF Some] have e: "m_index m < m_end m"
      and r: "?r = Inr None \<or> (\<exists>n. ?r = Inr (Some n) \<and> P n)"
      by auto
    from exec_Some [OF Some] e have ne: "\<not> m_end m \<le> lastIndex"
      by simp
    from r show ?thesis
    proof
      assume none: "?r = Inr None"
      have "\<exists>ns. handler_loop ic pat replace val start (m_end m) nodes change = Inr ns \<and>
              (\<forall>x \<in> set ns. P x)"
        by (rule "1.IH"(1) [OF Some none refl ne])
           (rule "1.prems"(1), assumption, rule "1.prems"(2), assumption, rule "1.prems"(3))
      then show ?thesis
        unfolding handler_loop_rejected [where replace = replace, OF Some none e] .
    next
      assume "\<exists>n. ?r = Inr (Some n) \<and> P n"
      then obtain n where n: "?r = Inr (Some n)" "P n"
        by blast
      let ?nodes = "nodes @ (if start \<noteq> m_index m then [Text (slice val start (m_index m))] else []) @ [n]"
      have v: "P x" if "x \<in> set ?nodes" for x
        using that "1.prems"(2,3) n(2) by (auto split: if_splits)
      have "\<exists>ns. handler_loop ic pat replace val (m_end m) (m_end m) ?nodes True = Inr ns \<and>
              (\<forall>x \<in> set ns. P x)"
        by (rule "1.IH"(2) [OF Some n(1) refl ne])
           (rule "1.prems"(1), assumption, rule v, assumption, rule "1.prems"(3))
      then show ?thesis
        unfolding handler_loop_accepted [where replace = replace, OF Some n(1) e] .
    qed
  qed
qed

text \<open>Once the list of nodes is in use, the result begins with it.\<close>

lemma handler_loop_prefix:
  "change \<Longrightarrow> handler_loop ic pat replace val start lastIndex nodes change = Inr ns \<Longrightarrow>
   \<exists>rest. ns = nodes @ rest"
proof (induction ic pat replace val start lastIndex nodes change arbitrary: ns rule: handler_loop.induct)
  case (1 ic pat replace val start lastIndex nodes change)
  show ?case
  proof (cases "exec ic pat val lastIndex")
    case None
    from "1.prems" show ?thesis
      unfolding handler_loop_done [OF None] by auto
  next
    case (Some m)
    let ?r = "replace (slice val (m_index m) (m_end m)) (group m) \<lparr>input = val, index = m_index m\<rparr>"
    from "1.prems"(2) Some have ne: "\<not> m_end m \<le> lastIndex"
      by (subst (asm) handler_loop.simps) (auto split: sum.splits option.splits if_splits)
    show ?thesis
    proof (cases ?r)
      case (Inl e)
      with "1.prems"(2) Some show ?thesis
        by (subst (asm) handler_loop.simps) simp
    next
      case (Inr r)
      show ?thesis
      proof (cases r)
        case None
        with Inr have none: "?r = Inr None" by simp
        from "1.prems"(2) Some none ne
        have "handler_loop ic pat replace val start (m_end m) nodes change = Inr ns"
          by (subst (asm) handler_loop.simps) simp
        with "1.prems"(1) show ?thesis
          by (rule "1.IH"(1) [OF Some none refl ne])
      next
        case (Some n)
        with Inr have n: "?r = Inr (Some n)" by simp
        let ?nodes = "nodes @ (if start \<noteq> m_index m then [Text (slice val start (m_index m))] else []) @ [n]"
        from "1.prems"(2) \<open>exec ic pat val lastIndex = Some m\<close> n ne
        have "handler_loop ic pat replace val (m_end m) (m_end m) ?nodes True = Inr ns"
          by (subst (asm) handler_loop.simps) simp
        with "1.IH"(2) [OF \<open>exec ic pat val lastIndex = Some m\<close> n refl ne TrueI]
        obtain rest where "ns = ?nodes @ rest"
          by blast
        then show ?thesis by simp
      qed
    qed
  qed
qed

text \<open>
  The text from \<open>start\<close> that the search has left behind, up to \<open>lastIndex\<close>, is in
  one text node of the result, which may hold more of the text behind it.
\<close>

lemma handler_loop_keeps_text:
  "handler_loop ic pat replace val start lastIndex nodes change = Inr ns \<Longrightarrow>
   change \<or> start = 0 \<Longrightarrow> start < e \<Longrightarrow> e \<le> lastIndex \<Longrightarrow> e \<le> length val \<Longrightarrow>
   \<exists>b. e \<le> b \<and> b \<le> length val \<and> Text (slice val start b) \<in> set ns"
proof (induction ic pat replace val start lastIndex nodes change arbitrary: ns rule: handler_loop.induct)
  case (1 ic pat replace val start lastIndex nodes change)
  show ?case
  proof (cases "exec ic pat val lastIndex")
    case None
    from "1.prems"(3,5) have s: "start < length val"
      by simp
    have z: "slice val 0 (length val) = val"
      by (simp add: slice_def)
    from "1.prems"(1) have "ns = (if change
          then nodes @ (if start < length val then [Text (slice val start (length val))] else [])
          else [Text val])"
      unfolding handler_loop_done [OF None] by simp
    with s "1.prems"(2) z have "Text (slice val start (length val)) \<in> set ns"
      by (cases change) auto
    with "1.prems"(5) show ?thesis
      by blast
  next
    case (Some m)
    let ?r = "replace (slice val (m_index m) (m_end m)) (group m) \<lparr>input = val, index = m_index m\<rparr>"
    from "1.prems"(1) Some have ne: "\<not> m_end m \<le> lastIndex"
      by (subst (asm) handler_loop.simps) (auto split: sum.splits option.splits if_splits)
    from exec_Some [OF Some] have i: "lastIndex \<le> m_index m" "m_index m \<le> length val"
      by simp_all
    show ?thesis
    proof (cases ?r)
      case (Inl err)
      with "1.prems"(1) Some show ?thesis
        by (subst (asm) handler_loop.simps) simp
    next
      case (Inr r)
      show ?thesis
      proof (cases r)
        case None
        with Inr have none: "?r = Inr None" by simp
        from "1.prems"(1) Some none ne
        have l: "handler_loop ic pat replace val start (m_end m) nodes change = Inr ns"
          by (subst (asm) handler_loop.simps) simp
        from "1.prems"(4) ne have "e \<le> m_end m"
          by simp
        with l "1.prems"(2,3) show ?thesis
          by (rule "1.IH"(1) [OF Some none refl ne]) (rule "1.prems"(5))
      next
        case (Some n)
        with Inr have n: "?r = Inr (Some n)" by simp
        let ?nodes = "nodes @ (if start \<noteq> m_index m then [Text (slice val start (m_index m))] else []) @ [n]"
        from "1.prems"(1) \<open>exec ic pat val lastIndex = Some m\<close> n ne
        have "handler_loop ic pat replace val (m_end m) (m_end m) ?nodes True = Inr ns"
          by (subst (asm) handler_loop.simps) simp
        from handler_loop_prefix [OF TrueI this] obtain rest where "ns = ?nodes @ rest"
          by blast
        moreover from "1.prems"(3,4) i(1) have "start \<noteq> m_index m" "e \<le> m_index m"
          by simp_all
        ultimately have "Text (slice val start (m_index m)) \<in> set ns" "e \<le> m_index m"
          by simp_all
        with i(2) show ?thesis
          by blast
      qed
    qed
  qed
qed

section \<open>What the patterns of the program match\<close>

lemma ms_nogroups:
  assumes "st' \<in> set (ms ic r s st)" "groups r = {}"
  shows "snd st' = snd st"
  using ms_follows [OF assms(1)] assms(2) unfolding follows_def by auto

lemma ms_Grp_elim:
  assumes "st' \<in> set (ms ic (Grp n r) s st)"
  obtains st'' where "st'' \<in> set (ms ic r s st)"
    "st' = (fst st'', (n, slice s (fst st) (fst st'')) # snd st'')"
  using assms by auto

lemma ms_Cls_elim:
  assumes "st' \<in> set (ms ic (Cls neg items) s st)"
  shows "fst st < length s" "cls_match ic items (s ! fst st) \<noteq> neg" "st' = (Suc (fst st), snd st)"
  using assms by (auto split: if_splits)

lemma length_slice: "j \<le> length s \<Longrightarrow> length (slice s i j) = j - i"
  by (auto simp: slice_def)

lemma exec_Some_mem:
  assumes "exec ic r s li = Some m"
  shows "(m_end m, m_caps m) \<in> set (ms ic r s (m_index m, []))"
  using exec_Some [OF assms] by auto

lemma linkRegex_unfold:
  "linkRegex =
     Seq Bol (Seq (lit ''http'') (Seq (Opt (Chr CHR ''s'')) (Seq (lit ''://github.com/'')
       (Seq (Seq (Grp 1 userGroup) (Seq (Chr CHR ''/'') (Grp 2 projectGroup))) linkTail))))"
  by (simp add: linkRegex_def linkTail_def repoGroup_def)

lemma groups_userGroup: "groups userGroup = {}"
  by (simp add: userGroup_def)

lemma groups_projectGroup: "groups projectGroup = {}"
  by (simp add: projectGroup_def Plus_def Chr_def)

lemma groups_hexClass: "groups hexClass = {}"
  by (simp add: hexClass_def)

lemma groups_linkTail: "groups linkTail = {3, 4}"
  by (auto simp: linkTail_def Plus_def Opt_def Chr_def groups_hexClass)

lemma must_linkTail: "must linkTail = {3, 4}"
  by (auto simp: linkTail_def Plus_def Opt_def Chr_def)

lemma minlen_userGroup: "minlen userGroup = 1"
  by (simp add: userGroup_def)

lemma linkRegex_match:
  assumes "exec True linkRegex u 0 = Some m"
  shows "\<exists>m1 m2 m3 m4. group m 1 = Some m1 \<and> group m 2 = Some m2 \<and> group m 3 = Some m3 \<and>
           group m 4 = Some m4 \<and> length m1 + 19 \<le> length u"
    and "u \<noteq> [] \<and> cls_match True [CChar CHR ''h''] (hd u)"
    and "m_index m = 0"
proof -
  let ?st = "(m_end m, m_caps m)"
  from exec_Some_mem [OF assms]
  have "?st \<in> set (ms True linkRegex u (m_index m, []))" .
  then have h0: "?st \<in> set (ms True
      (Seq Bol (Seq (lit ''http'') (Seq (Opt (Chr CHR ''s'')) (Seq (lit ''://github.com/'')
        (Seq (Seq (Grp 1 userGroup) (Seq (Chr CHR ''/'') (Grp 2 projectGroup))) linkTail)))))
      u (m_index m, []))"
    by (simp only: linkRegex_unfold)
  from h0 obtain st1 where
    s1: "st1 \<in> set (ms True Bol u (m_index m, []))" and
    h1: "?st \<in> set (ms True (Seq (lit ''http'') (Seq (Opt (Chr CHR ''s'')) (Seq (lit ''://github.com/'')
        (Seq (Seq (Grp 1 userGroup) (Seq (Chr CHR ''/'') (Grp 2 projectGroup))) linkTail)))) u st1)"
    by (rule ms_Seq_elim)
  from h1 obtain st2 where
    s2: "st2 \<in> set (ms True (lit ''http'') u st1)" and
    h2: "?st \<in> set (ms True (Seq (Opt (Chr CHR ''s'')) (Seq (lit ''://github.com/'')
        (Seq (Seq (Grp 1 userGroup) (Seq (Chr CHR ''/'') (Grp 2 projectGroup))) linkTail))) u st2)"
    by (rule ms_Seq_elim)
  from h2 obtain st3 where
    s3: "st3 \<in> set (ms True (Opt (Chr CHR ''s'')) u st2)" and
    h3: "?st \<in> set (ms True (Seq (lit ''://github.com/'')
        (Seq (Seq (Grp 1 userGroup) (Seq (Chr CHR ''/'') (Grp 2 projectGroup))) linkTail)) u st3)"
    by (rule ms_Seq_elim)
  from h3 obtain st4 where
    s4: "st4 \<in> set (ms True (lit ''://github.com/'') u st3)" and
    h4: "?st \<in> set (ms True
        (Seq (Seq (Grp 1 userGroup) (Seq (Chr CHR ''/'') (Grp 2 projectGroup))) linkTail) u st4)"
    by (rule ms_Seq_elim)
  from h4 obtain st5 where
    s5: "st5 \<in> set (ms True (Seq (Grp 1 userGroup) (Seq (Chr CHR ''/'') (Grp 2 projectGroup))) u st4)" and
    s6: "?st \<in> set (ms True linkTail u st5)"
    by (rule ms_Seq_elim)
  from s1 have i0: "m_index m = 0" and st1: "st1 = (0, [])"
    by (auto split: if_splits)
  show "m_index m = 0" by (rule i0)
  have "lit ''http'' = Seq (Chr CHR ''h'') (lit ''ttp'')"
    by simp
  with s2 obtain mid where "mid \<in> set (ms True (Chr CHR ''h'') u st1)"
    by (metis ms_Seq_elim)
  then have "fst st1 < length u" "cls_match True [CChar CHR ''h''] (u ! fst st1)"
    unfolding Chr_def by (auto split: if_splits)
  with st1 show "u \<noteq> [] \<and> cls_match True [CChar CHR ''h''] (hd u)"
    by (cases u) auto
  have p2: "4 \<le> fst st2" "snd st2 = []"
    using ms_minlen [OF s2] ms_nogroups [OF s2] st1 by (simp_all add: Chr_def)
  have p3: "4 \<le> fst st3" "snd st3 = []"
    using ms_bounds(1) [OF s3] ms_nogroups [OF s3] p2 by (simp_all add: Chr_def Opt_def)
  have p4: "18 \<le> fst st4" "snd st4 = []"
    using ms_minlen [OF s4] ms_nogroups [OF s4] p3 by (simp_all add: Chr_def)
  from s5 obtain st5a where
    a: "st5a \<in> set (ms True (Grp 1 userGroup) u st4)" and
    b: "st5 \<in> set (ms True (Seq (Chr CHR ''/'') (Grp 2 projectGroup)) u st5a)"
    by (rule ms_Seq_elim)
  from a obtain st'' where c: "st'' \<in> set (ms True userGroup u st4)"
    and d: "st5a = (fst st'', (1, slice u (fst st4) (fst st'')) # snd st'')"
    by (rule ms_Grp_elim)
  let ?m1 = "slice u (fst st4) (fst st'')"
  have c1: "map_of (snd st5a) 1 = Some ?m1"
    using d by simp
  have "map_of (snd st5) 1 = map_of (snd st5a) 1"
    by (rule ms_keeps [OF b]) (simp add: Chr_def groups_projectGroup)
  moreover have "map_of (m_caps m) 1 = map_of (snd st5) 1"
    using ms_keeps [OF s6, of 1] by (simp add: groups_linkTail)
  ultimately have g1: "group m 1 = Some ?m1"
    using c1 by (simp add: group_def)
  have "map_of (snd st5) 2 \<noteq> None"
    by (rule ms_must [OF b]) simp
  with ms_defined_stays [OF s6, of 2] have g2: "group m 2 \<noteq> None"
    by (simp add: group_def)
  have g3: "group m 3 \<noteq> None" and g4: "group m 4 \<noteq> None"
    using ms_must [OF s6, of 3] ms_must [OF s6, of 4] by (simp_all add: group_def must_linkTail)
  have "fst st5a + 1 \<le> fst st5"
    using ms_minlen [OF b] by (simp add: Chr_def)
  moreover have "fst st5 \<le> fst ?st"
    by (rule ms_bounds(1) [OF s6])
  moreover have "fst ?st \<le> length u"
    using ms_bounds(2) [OF exec_Some_mem [OF assms]] i0 by simp
  ultimately have e: "fst st'' + 1 \<le> length u"
    using d by simp
  then have "length ?m1 = fst st'' - fst st4"
    by (simp add: length_slice)
  with e p4 ms_bounds(1) [OF c] have "length ?m1 + 19 \<le> length u"
    by simp
  with g1 g2 g3 g4 show "\<exists>m1 m2 m3 m4. group m 1 = Some m1 \<and> group m 2 = Some m2 \<and>
      group m 3 = Some m3 \<and> group m 4 = Some m4 \<and> length m1 + 19 \<le> length u"
    by auto
qed

lemma slice_set:
  assumes "x \<in> set (slice s i j)" "j \<le> length s"
  shows "\<exists>p. i \<le> p \<and> p < j \<and> x = s ! p"
proof -
  from assms(1) obtain q where q: "q < length (take (j - i) (drop i s))" "x = take (j - i) (drop i s) ! q"
    unfolding slice_def in_set_conv_nth by blast
  then have "q < j - i" "x = s ! (i + q)"
    using assms(2) by auto
  then show ?thesis
    by (intro exI [of _ "i + q"]) auto
qed

lemma iter_Cls:
  "st' \<in> set (iter (ms ic (Cls neg items) s) n k lo hi st) \<Longrightarrow>
   snd st' = snd st \<and> fst st \<le> fst st' \<and> lo \<le> k + (fst st' - fst st) \<and>
   (\<forall>h. hi = Some h \<and> k \<le> h \<longrightarrow> k + (fst st' - fst st) \<le> h) \<and>
   (\<forall>p. fst st \<le> p \<and> p < fst st' \<longrightarrow> p < length s \<and> cls_match ic items (s ! p) \<noteq> neg)"
proof (induction n arbitrary: k st)
  case 0
  then show ?case by (auto split: if_splits)
next
  case (Suc n)
  from Suc.prems consider
      (steps) mid where "below k hi" "mid \<in> set (ms ic (Cls neg items) s st)"
        "st' \<in> set (iter (ms ic (Cls neg items) s) n (Suc k) lo hi mid)"
    | (stop) "st' = st" "lo \<le> k"
    by (auto split: if_splits simp del: ms.simps)
  then show ?case
  proof cases
    case steps
    from ms_Cls_elim [OF steps(2)]
    have m: "fst st < length s" "cls_match ic items (s ! fst st) \<noteq> neg" "mid = (Suc (fst st), snd st)"
      by auto
    from Suc.IH [OF steps(3)] m(3)
    have ih: "snd st' = snd st" "Suc (fst st) \<le> fst st'" "lo \<le> Suc k + (fst st' - Suc (fst st))"
      "\<forall>h. hi = Some h \<and> Suc k \<le> h \<longrightarrow> Suc k + (fst st' - Suc (fst st)) \<le> h"
      "\<forall>p. Suc (fst st) \<le> p \<and> p < fst st' \<longrightarrow> p < length s \<and> cls_match ic items (s ! p) \<noteq> neg"
      by auto
    have a: "\<forall>h. hi = Some h \<and> k \<le> h \<longrightarrow> k + (fst st' - fst st) \<le> h"
      using ih(2,4) steps(1) by (auto simp: below_def)
    have b: "p < length s \<and> cls_match ic items (s ! p) \<noteq> neg" if "fst st \<le> p" "p < fst st'" for p
    proof (cases "p = fst st")
      case True
      with m show ?thesis by simp
    next
      case False
      with that have "Suc (fst st) \<le> p" by simp
      with ih(5) that show ?thesis by blast
    qed
    from ih(1,2,3) a b show ?thesis
      by auto
  next
    case stop
    then show ?thesis by auto
  qed
qed

lemma ms_Rep_Cls:
  assumes "st' \<in> set (ms ic (Rep lo hi (Cls neg items)) s st)" "fst st \<le> length s"
  shows "snd st' = snd st" "fst st \<le> fst st'" "fst st' \<le> length s" "lo \<le> fst st' - fst st"
    "\<And>h. hi = Some h \<Longrightarrow> fst st' - fst st \<le> h"
    "\<And>x. x \<in> set (slice s (fst st) (fst st')) \<Longrightarrow> cls_match ic items x \<noteq> neg"
proof -
  from assms(1) have i: "st' \<in> set (iter (ms ic (Cls neg items) s) (length s - fst st) 0 lo hi st)"
    by simp
  note r = iter_Cls [OF i]
  from r show "snd st' = snd st" "fst st \<le> fst st'" "lo \<le> fst st' - fst st"
    by auto
  from r show "fst st' - fst st \<le> h" if "hi = Some h" for h
    using that by auto
  from ms_bounds(2) [OF assms] show le: "fst st' \<le> length s" .
  show "cls_match ic items x \<noteq> neg" if "x \<in> set (slice s (fst st) (fst st'))" for x
  proof -
    from slice_set [OF that le] obtain p where "fst st \<le> p" "p < fst st'" "x = s ! p"
      by blast
    with r show ?thesis by auto
  qed
qed

lemma slice_split: "i \<le> j \<Longrightarrow> j \<le> k \<Longrightarrow> slice s i k = slice s i j @ slice s j k"
proof -
  assume a: "i \<le> j" "j \<le> k"
  have "take ((j - i) + (k - j)) (drop i s) =
          take (j - i) (drop i s) @ take (k - j) (drop (j - i) (drop i s))"
    by (rule take_add)
  with a show ?thesis
    by (simp add: slice_def)
qed

lemma slice_all: "slice s 0 (length s) = s"
  by (simp add: slice_def)

lemma three_equal: "length xs = 3 \<Longrightarrow> \<forall>x \<in> set xs. x = c \<Longrightarrow> xs = [c, c, c]"
  by (auto simp: length_Suc_conv numeral_3_eq_3)

lemma split_dots_end:
  "CHR ''.'' \<notin> set c \<Longrightarrow> split ''...'' acc c = [rev acc @ c]"
  by (induction c arbitrary: acc) auto

lemma split_dots:
  "CHR ''.'' \<notin> set b \<Longrightarrow> split ''...'' acc (b @ ''...'' @ c) = (rev acc @ b) # split ''...'' [] c"
  by (induction b arbitrary: acc) auto

lemma hexClass_no_dot:
  assumes "cls_match False [CRange CHR ''a'' CHR ''f'', CDigit] x"
  shows "x \<noteq> CHR ''.''"
  using assms by (auto simp: cls_match_def is_digit_def code_def)

lemma compareRegex_match:
  assumes "test False compareRegex m4"
  shows "\<exists>b c. m4 = b @ ''...'' @ c \<and> 4 \<le> length b \<and> length b \<le> 40 \<and> 4 \<le> length c \<and> length c \<le> 40 \<and>
           (\<forall>x \<in> set b. cls_match False [CRange CHR ''a'' CHR ''f'', CDigit] x) \<and>
           (\<forall>x \<in> set c. cls_match False [CRange CHR ''a'' CHR ''f'', CDigit] x)"
proof -
  let ?hex = "Rep 4 (Some 40) hexClass"
  let ?dots = "Rep 3 (Some 3) (Chr CHR ''.'')"
  from assms obtain m where m: "exec False compareRegex m4 0 = Some m"
    by (auto simp: test_def)
  have u: "compareRegex = Seq Bol (Seq ?hex (Seq ?dots (Seq ?hex Eol)))"
    by (simp add: compareRegex_def)
  from exec_Some_mem [OF m]
  have h0: "(m_end m, m_caps m) \<in> set (ms False (Seq Bol (Seq ?hex (Seq ?dots (Seq ?hex Eol)))) m4 (m_index m, []))"
    by (simp only: u)
  from h0 obtain st1 where s1: "st1 \<in> set (ms False Bol m4 (m_index m, []))"
    and h1: "(m_end m, m_caps m) \<in> set (ms False (Seq ?hex (Seq ?dots (Seq ?hex Eol))) m4 st1)"
    by (rule ms_Seq_elim)
  from h1 obtain st2 where s2: "st2 \<in> set (ms False ?hex m4 st1)"
    and h2: "(m_end m, m_caps m) \<in> set (ms False (Seq ?dots (Seq ?hex Eol)) m4 st2)"
    by (rule ms_Seq_elim)
  from h2 obtain st3 where s3: "st3 \<in> set (ms False ?dots m4 st2)"
    and h3: "(m_end m, m_caps m) \<in> set (ms False (Seq ?hex Eol) m4 st3)"
    by (rule ms_Seq_elim)
  from h3 obtain st4 where s4: "st4 \<in> set (ms False ?hex m4 st3)"
    and s5: "(m_end m, m_caps m) \<in> set (ms False Eol m4 st4)"
    by (rule ms_Seq_elim)
  from s1 have st1: "fst st1 = 0"
    by (auto split: if_splits)
  from s5 have st4: "fst st4 = length m4"
    by (auto split: if_splits)
  note a = ms_Rep_Cls [OF s2 [unfolded hexClass_def]]
  have l2: "fst st2 \<le> length m4" using a(3) st1 by simp
  note b = ms_Rep_Cls [OF s3 [unfolded Chr_def] l2]
  note c = ms_Rep_Cls [OF s4 [unfolded hexClass_def] b(3)]
  let ?j1 = "fst st2" and ?j2 = "fst st3"
  have j: "4 \<le> ?j1" "?j1 \<le> 40" "?j2 = ?j1 + 3" "4 \<le> length m4 - ?j2" "length m4 - ?j2 \<le> 40"
    "?j2 \<le> length m4"
    using a(2,4,5) b(2,3,4,5) c(2,4,5) st1 st4 by auto
  have d: "slice m4 ?j1 ?j2 = ''...''"
  proof -
    have "length (slice m4 ?j1 ?j2) = 3"
      using j by (simp add: length_slice)
    moreover have "\<forall>x \<in> set (slice m4 ?j1 ?j2). x = CHR ''.''"
      using b(6) by (auto simp: cls_match_def)
    ultimately show ?thesis
      by (rule three_equal)
  qed
  have "slice m4 0 (length m4) = slice m4 0 ?j1 @ slice m4 ?j1 (length m4)"
    using j by (intro slice_split) simp_all
  moreover have "slice m4 ?j1 (length m4) = slice m4 ?j1 ?j2 @ slice m4 ?j2 (length m4)"
    using j by (intro slice_split) simp_all
  ultimately have e: "m4 = slice m4 0 ?j1 @ slice m4 ?j1 ?j2 @ slice m4 ?j2 (length m4)"
    by (simp only: slice_all)
  have "\<forall>x \<in> set (slice m4 0 ?j1). cls_match False [CRange CHR ''a'' CHR ''f'', CDigit] x"
    using a(6) st1 by simp
  moreover have "\<forall>x \<in> set (slice m4 ?j2 (length m4)). cls_match False [CRange CHR ''a'' CHR ''f'', CDigit] x"
    using c(6) st4 by simp
  moreover have "length (slice m4 0 ?j1) = ?j1" "length (slice m4 ?j2 (length m4)) = length m4 - ?j2"
    using j by (simp_all add: length_slice)
  ultimately have "m4 = slice m4 0 ?j1 @ ''...'' @ slice m4 ?j2 (length m4) \<and>
      4 \<le> length (slice m4 0 ?j1) \<and> length (slice m4 0 ?j1) \<le> 40 \<and>
      4 \<le> length (slice m4 ?j2 (length m4)) \<and> length (slice m4 ?j2 (length m4)) \<le> 40 \<and>
      (\<forall>x \<in> set (slice m4 0 ?j1). cls_match False [CRange CHR ''a'' CHR ''f'', CDigit] x) \<and>
      (\<forall>x \<in> set (slice m4 ?j2 (length m4)). cls_match False [CRange CHR ''a'' CHR ''f'', CDigit] x)"
    using e d j by (simp only:)
  then show ?thesis
    by blast
qed

section \<open>Parsing a link\<close>

lemma parse_nomatch: "exec True linkRegex u 0 = None \<Longrightarrow> parse (Link u t cs) = Inr None"
  by simp

lemma parse_not_bare:
  assumes "cs \<noteq> [Text u]"
  shows "parse (Link u t cs) = Inr None"
proof (cases "exec True linkRegex u 0")
  case None
  then show ?thesis by simp
next
  case (Some m)
  show ?thesis
  proof (cases cs)
    case Nil
    with Some show ?thesis by simp
  next
    case (Cons c rest)
    show ?thesis
    proof (cases rest)
      case Nil
      with Cons assms Some show ?thesis
        by (cases c) auto
    next
      case (Cons d rest')
      with \<open>cs = c # rest\<close> Some show ?thesis
        by (cases c) auto
    qed
  qed
qed

lemma parse_bare:
  assumes "exec True linkRegex u 0 = Some m"
    and "group m 1 = Some m1" "group m 2 = Some m2" "group m 3 = Some m3" "group m 4 = Some m4"
  shows "parse (Link u t [Text u]) =
    (if (m3 = ''commit'' \<and> (length m4 < 4 \<or> length m4 > 40)) \<or>
        (m3 = ''compare'' \<and> \<not> test False compareRegex m4) \<or>
        ((m3 = ''issues'' \<or> m3 = ''pull'') \<and> test True hexLetter m4) \<or>
        length m2 \<ge> 100
     then Inr None
     else
       (case (if m3 = ''compare''
              then (case split ''...'' [] m4 of
                      base # compare # _ \<Rightarrow> Inr (abbr base @ ''...'' @ abbr compare)
                    | _ \<Rightarrow> Inl TypeError)
              else Inr (abbr m4)) of
          Inl e \<Rightarrow> Inl e
        | Inr ref \<Rightarrow>
            Inr (Some \<lparr>user = m1, project = m2, page = m3, reference = ref,
                       comment = (charAt u (int (m_end m - m_index m)) = ''#'' \<and>
                                  (m_end m - m_index m) + 1 < length u)\<rparr>)))"
  using assms by simp

lemma compare_split:
  assumes "test False compareRegex m4"
  shows "\<exists>b c. m4 = b @ ''...'' @ c \<and> CHR ''.'' \<notin> set b \<and> CHR ''.'' \<notin> set c \<and>
           split ''...'' [] m4 = [b, c]"
proof -
  from compareRegex_match [OF assms] obtain b c where
    m: "m4 = b @ ''...'' @ c" and
    h: "\<forall>x \<in> set b. cls_match False [CRange CHR ''a'' CHR ''f'', CDigit] x"
       "\<forall>x \<in> set c. cls_match False [CRange CHR ''a'' CHR ''f'', CDigit] x"
    by blast
  from h have d: "CHR ''.'' \<notin> set b" "CHR ''.'' \<notin> set c"
    using hexClass_no_dot by blast+
  have "split ''...'' [] (b @ ''...'' @ c) = [b, c]"
    using split_dots [OF d(1), of "[]" c] split_dots_end [OF d(2), of "[]"] by simp
  with m d show ?thesis by blast
qed

lemma parse_total: "\<exists>r. parse n = Inr r"
proof (cases n)
  case (Link u t cs)
  show ?thesis
  proof (cases "cs = [Text u]")
    case False
    with Link show ?thesis by (simp add: parse_not_bare del: parse.simps)
  next
    case True
    show ?thesis
    proof (cases "exec True linkRegex u 0")
      case None
      with Link show ?thesis by simp
    next
      case (Some m)
      from linkRegex_match(1) [OF Some] obtain m1 m2 m3 m4 where
        g: "group m 1 = Some m1" "group m 2 = Some m2" "group m 3 = Some m3" "group m 4 = Some m4"
        by blast
      show ?thesis
      proof (cases "m3 = ''compare'' \<and> test False compareRegex m4")
        case True
        with compare_split obtain b c where "split ''...'' [] m4 = [b, c]" by blast
        with True show ?thesis
          unfolding Link \<open>cs = [Text u]\<close> parse_bare [OF Some g] by simp
      next
        case False
        then show ?thesis
          unfolding Link \<open>cs = [Text u]\<close> parse_bare [OF Some g] by auto
      qed
    qed
  qed
qed simp_all

lemma parse_Some:
  assumes "parse (Link u t cs) = Inr (Some l)"
  shows "\<exists>m m1 m2 m4. exec True linkRegex u 0 = Some m \<and> group m 1 = Some m1 \<and> group m 2 = Some m2 \<and>
           group m 3 = Some (page l) \<and> group m 4 = Some m4 \<and>
           length m1 + 19 \<le> length u \<and> cs = [Text u] \<and> user l = m1 \<and> project l = m2 \<and>
           (page l = ''compare'' \<longrightarrow>
              (\<exists>b c. m4 = b @ ''...'' @ c \<and> CHR ''.'' \<notin> set b \<and> CHR ''.'' \<notin> set c \<and>
                     reference l = abbr b @ ''...'' @ abbr c)) \<and>
           (page l \<noteq> ''compare'' \<longrightarrow> reference l = abbr m4)"
proof -
  from assms have cs: "cs = [Text u]"
    using parse_not_bare [of cs u t] by auto
  from assms obtain m where m: "exec True linkRegex u 0 = Some m"
    using parse_nomatch [of u t cs] by (cases "exec True linkRegex u 0") auto
  from linkRegex_match(1) [OF m] obtain m1 m2 m3 m4 where
    g: "group m 1 = Some m1" "group m 2 = Some m2" "group m 3 = Some m3" "group m 4 = Some m4"
    and len: "length m1 + 19 \<le> length u"
    by blast
  note p = assms [unfolded cs parse_bare [OF m g]]
  show ?thesis
  proof (cases "m3 = ''compare''")
    case True
    with p have "test False compareRegex m4"
      by (auto split: if_splits)
    from compare_split [OF this] obtain b c where
      s: "m4 = b @ ''...'' @ c" "CHR ''.'' \<notin> set b" "CHR ''.'' \<notin> set c" "split ''...'' [] m4 = [b, c]"
      by blast
    from p True s(4) have "l = \<lparr>user = m1, project = m2, page = m3, reference = abbr b @ ''...'' @ abbr c,
        comment = (charAt u (int (m_end m - m_index m)) = ''#'' \<and> (m_end m - m_index m) + 1 < length u)\<rparr>"
      by (auto split: if_splits)
    with True m g len cs s show ?thesis
      by auto
  next
    case False
    with p have "l = \<lparr>user = m1, project = m2, page = m3, reference = abbr m4,
        comment = (charAt u (int (m_end m - m_index m)) = ''#'' \<and> (m_end m - m_index m) + 1 < length u)\<rparr>"
      by (auto split: if_splits)
    with False m g len cs show ?thesis
      by auto
  qed
qed

text \<open>
  C1: the code at the failing input. The fourth group of \<open>linkRegex\<close> takes the slash
  behind the hash with it, and \<open>parse\<close> hands the group to \<open>abbr\<close>, which is written
  for a SHA: for the link to the commit \<open>abcd\<close> written with a slash at its end, the
  inline code that is shown is \<open>abcd/\<close>, which is neither the hash \<open>abcd\<close> nor a prefix
  of it. The abbreviation of the hash itself is the hash.
\<close>

theorem trailing_slash_in_display:
  "exec True linkRegex ''https://github.com/u/p/commit/abcd/'' 0 =
     Some \<lparr>m_index = 0, m_end = 35,
           m_caps = [(4, ''abcd/''), (3, ''commit''), (2, ''p''), (1, ''u'')]\<rparr> \<and>
   visit (Link ''https://github.com/u/p/commit/abcd/'' None
            [Text ''https://github.com/u/p/commit/abcd/'']) =
     Inr (Link ''https://github.com/u/p/commit/abcd/'' None [Text ''u@'', InlineCode ''abcd/'']) \<and>
   abbr ''abcd'' = ''abcd''"
  by code_simp

text \<open>
  C3: the code at the failing input. \<open>linkRegex\<close> has the flag \<open>i\<close> and matches the page
  \<open>COMMIT\<close>; the checks of \<open>parse\<close> compare the page with \<open>commit\<close>, \<open>compare\<close>,
  \<open>issues\<close> and \<open>pull\<close> exactly, so none applies, and the link with a hash of two
  characters gets new children.
\<close>

theorem upper_case_page_not_validated:
  "exec True linkRegex ''https://github.com/u/p/COMMIT/ab'' 0 =
     Some \<lparr>m_index = 0, m_end = 32,
           m_caps = [(4, ''ab''), (3, ''COMMIT''), (2, ''p''), (1, ''u'')]\<rparr> \<and>
   visit (Link ''https://github.com/u/p/COMMIT/ab'' None [Text ''https://github.com/u/p/COMMIT/ab'']) =
     Inr (Link ''https://github.com/u/p/COMMIT/ab'' None [Text ''u@'', InlineCode ''ab''])"
  by code_simp

section \<open>Visiting the links\<close>

lemma collect_Inr_iff: "collect (map f xs) = Inr ys \<longleftrightarrow> list_all2 (\<lambda>x y. f x = Inr y) xs ys"
proof (induction xs arbitrary: ys)
  case Nil
  then show ?case by auto
next
  case (Cons x xs)
  show ?case
  proof (cases "f x")
    case (Inl e)
    then show ?thesis by (cases ys) auto
  next
    case (Inr v)
    show ?thesis
    proof (cases "collect (map f xs)")
      case (Inl e)
      with Cons.IH have "\<not> list_all2 (\<lambda>x y. f x = Inr y) xs zs" for zs
        by (metis sum.distinct(1))
      with Inl Inr show ?thesis by (cases ys) auto
    next
      case (Inr vs)
      with Cons.IH have a: "list_all2 (\<lambda>x y. f x = Inr y) xs zs \<longleftrightarrow> zs = vs" for zs
        by (metis sum.inject(2))
      from Inr \<open>f x = Inr v\<close> show ?thesis
        by (cases ys) (auto simp: a)
    qed
  qed
qed

lemma collect_same:
  assumes "\<And>x. x \<in> set xs \<Longrightarrow> f x = Inr x"
  shows "collect (map f xs) = Inr xs"
  unfolding collect_Inr_iff using assms by (simp add: list_all2_conv_all_nth)

lemma collect_total:
  assumes "\<And>x. x \<in> set xs \<Longrightarrow> \<exists>y. f x = Inr y"
  shows "\<exists>ys. collect (map f xs) = Inr ys"
  using assms
proof (induction xs)
  case Nil
  then show ?case by simp
next
  case (Cons x xs)
  then obtain y ys where "f x = Inr y" "collect (map f xs) = Inr ys"
    by (metis list.set_intros(1) list.set_intros(2))
  then show ?case by simp
qed

lemma collect_idem:
  assumes "collect (map f xs) = Inr ys"
    and "\<And>x y. x \<in> set xs \<Longrightarrow> f x = Inr y \<Longrightarrow> f y = Inr y"
  shows "collect (map f ys) = Inr ys"
proof -
  from assms(1) have a: "list_all2 (\<lambda>x y. f x = Inr y) xs ys"
    by (simp add: collect_Inr_iff)
  have "f y = Inr y" if "y \<in> set ys" for y
  proof -
    from that obtain i where i: "i < length ys" "y = ys ! i"
      by (auto simp: in_set_conv_nth)
    with a have "i < length xs" "f (xs ! i) = Inr y"
      by (auto simp: list_all2_conv_all_nth)
    with assms(2) [of "xs ! i" y] show ?thesis by simp
  qed
  then show ?thesis by (rule collect_same)
qed

lemma visit_total: "\<exists>t'. visit t = Inr t'"
proof (induction t)
  case (Strong cs)
  from collect_total [of cs visit, OF Strong] obtain ys where "collect (map visit cs) = Inr ys"
    by blast
  then show ?case by simp
next
  case (Link u ti cs)
  from collect_total [of cs visit, OF Link] obtain ys where c: "collect (map visit cs) = Inr ys"
    by blast
  from parse_total obtain r where "parse (Link u ti cs) = Inr r"
    by blast
  with c show ?case
    by (cases r) (simp_all del: parse.simps)
next
  case (LinkReference cs)
  from collect_total [of cs visit, OF LinkReference] obtain ys where "collect (map visit cs) = Inr ys"
    by blast
  then show ?case by simp
next
  case (Other k v cs)
  from collect_total [of cs visit, OF Other] obtain ys where "collect (map visit cs) = Inr ys"
    by blast
  then show ?case by simp
qed simp_all

lemma visit_Text_inv: "visit x = Inr (Text v) \<Longrightarrow> x = Text v"
  by (cases x) (auto simp del: parse.simps split: sum.splits option.splits)

lemma length_abbr: "length (abbr s) \<le> 7"
  by (simp add: abbr_take)

lemma linkChildren_not_bare:
  assumes "parse (Link u t cs) = Inr (Some l)"
  shows "linkChildren l \<noteq> [Text u]"
proof (cases "page l = ''issues'' \<or> page l = ''pull''")
  case True
  from parse_Some [OF assms] obtain m4 where
    a: "length (user l) + 19 \<le> length u" and b: "page l \<noteq> ''compare'' \<longrightarrow> reference l = abbr m4"
    by auto
  from True b have "reference l = abbr m4" by auto
  then have "length (reference l) \<le> 7"
    by (simp add: length_abbr)
  then have "length ((user l @ ''#'') @ reference l @ (if comment l then '' (comment)'' else []))
               \<le> length (user l) + 18"
    by simp
  with a have "length ((user l @ ''#'') @ reference l @ (if comment l then '' (comment)'' else []))
                 \<noteq> length u"
    by linarith
  then have "(user l @ ''#'') @ reference l @ (if comment l then '' (comment)'' else []) \<noteq> u"
    by blast
  with True show ?thesis
    by (simp add: linkChildren_def Let_def)
next
  case False
  then show ?thesis
    by (auto simp: linkChildren_def Let_def)
qed

lemma visit_linkChildren: "x \<in> set (linkChildren l) \<Longrightarrow> visit x = Inr x"
  by (auto simp: linkChildren_def Let_def split: if_splits)

lemma visit_parsed:
  assumes "parse (Link u t cs) = Inr (Some l)"
  shows "visit (Link u t (linkChildren l)) = Inr (Link u t (linkChildren l))"
proof -
  have "parse (Link u t (linkChildren l)) = Inr None"
    by (rule parse_not_bare) (rule linkChildren_not_bare [OF assms])
  moreover have "collect (map visit (linkChildren l)) = Inr (linkChildren l)"
    by (rule collect_same) (rule visit_linkChildren)
  ultimately show ?thesis
    by (simp del: parse.simps)
qed

lemma visit_idem: "visit t = Inr t' \<Longrightarrow> visit t' = Inr t'"
proof (induction t arbitrary: t')
  case (Text v)
  then show ?case by auto
next
  case (InlineCode v)
  then show ?case by auto
next
  case (Strong cs)
  from Strong.prems obtain cs' where c: "collect (map visit cs) = Inr cs'" and t: "t' = Strong cs'"
    by (auto split: sum.splits)
  from collect_idem [OF c Strong.IH] t show ?case by simp
next
  case (Link u ti cs)
  from parse_total obtain r where r: "parse (Link u ti cs) = Inr r"
    by blast
  show ?case
  proof (cases r)
    case None
    with r Link.prems obtain cs' where c: "collect (map visit cs) = Inr cs'" and t: "t' = Link u ti cs'"
      by (auto simp del: parse.simps split: sum.splits)
    have "parse (Link u ti cs') = Inr None"
    proof (cases "cs' = [Text u]")
      case True
      with c have "list_all2 (\<lambda>x y. visit x = Inr y) cs [Text u]"
        by (simp add: collect_Inr_iff)
      then obtain x where "cs = [x]" "visit x = Inr (Text u)"
        by (auto simp: list_all2_Cons2)
      with visit_Text_inv have "cs = [Text u]" by blast
      with True r None show ?thesis by (simp del: parse.simps)
    next
      case False
      then show ?thesis by (rule parse_not_bare)
    qed
    with collect_idem [OF c Link.IH] t show ?thesis
      by (simp del: parse.simps)
  next
    case (Some l)
    with r Link.prems have "t' = Link u ti (linkChildren l)"
      by (auto simp del: parse.simps)
    with visit_parsed r Some show ?thesis by blast
  qed
next
  case (LinkReference cs)
  from LinkReference.prems obtain cs' where c: "collect (map visit cs) = Inr cs'"
    and t: "t' = LinkReference cs'"
    by (auto split: sum.splits)
  from collect_idem [OF c LinkReference.IH] t show ?case by simp
next
  case (Other k v cs)
  from Other.prems obtain cs' where c: "collect (map visit cs) = Inr cs'" and t: "t' = Other k v cs'"
    by (auto split: sum.splits)
  from collect_idem [OF c Other.IH] t show ?case by simp
qed

lemma commit_example:
  "visit (Link ''https://github.com/u/p/commit/abcdef12'' None
            [Text ''https://github.com/u/p/commit/abcdef12'']) =
     Inr (Link ''https://github.com/u/p/commit/abcdef12'' None [Text ''u@'', InlineCode ''abcdef1''])"
  by code_simp

text \<open>
  C4. The visit of the links returns a tree for every tree, and visiting that tree
  again returns it unchanged: two runs give what one run gives. The children that a
  parsed link gets are never the single text node with the URL of the link, so
  \<open>parse\<close> rejects the link in the second run.
\<close>

theorem normalization_idempotent:
  "(\<exists>t'. visit t = Inr t') \<and>
   (case visit t of Inl e \<Rightarrow> Inl e | Inr t' \<Rightarrow> visit t') = visit t \<and>
   (parse (Link u ti cs) = Inr (Some l)
      \<longrightarrow> visit (Link u ti cs) = Inr (Link u ti (linkChildren l)) \<and>
          linkChildren l \<noteq> [Text u] \<and>
          parse (Link u ti (linkChildren l)) = Inr None)"
proof -
  from visit_total obtain t' where t: "visit t = Inr t'"
    by blast
  from visit_idem [OF t] t
  have a: "(case visit t of Inl e \<Rightarrow> Inl e | Inr t' \<Rightarrow> visit t') = visit t"
    by simp
  have b: "visit (Link u ti cs) = Inr (Link u ti (linkChildren l)) \<and>
          linkChildren l \<noteq> [Text u] \<and>
          parse (Link u ti (linkChildren l)) = Inr None"
    if p: "parse (Link u ti cs) = Inr (Some l)"
  proof -
    have "linkChildren l \<noteq> [Text u]"
      by (rule linkChildren_not_bare [OF p])
    moreover from this have "parse (Link u ti (linkChildren l)) = Inr None"
      by (rule parse_not_bare)
    moreover from p have "visit (Link u ti cs) = Inr (Link u ti (linkChildren l))"
      by (simp del: parse.simps)
    ultimately show ?thesis by blast
  qed
  from t a b show ?thesis
    by blast
qed

theorem normalization_idempotent_witness:
  "visit (Link ''https://github.com/u/p/commit/abcdef12'' None [Text ''u@'', InlineCode ''abcdef1'']) =
     Inr (Link ''https://github.com/u/p/commit/abcdef12'' None [Text ''u@'', InlineCode ''abcdef1''])"
proof -
  let ?t = "Link ''https://github.com/u/p/commit/abcdef12'' None
              [Text ''https://github.com/u/p/commit/abcdef12'']"
  let ?t' = "Link ''https://github.com/u/p/commit/abcdef12'' None [Text ''u@'', InlineCode ''abcdef1'']"
  have e: "visit ?t = Inr ?t'"
    by (rule commit_example)
  from normalization_idempotent [where t = ?t]
  have "(case visit ?t of Inl e \<Rightarrow> Inl e | Inr t' \<Rightarrow> visit t') = visit ?t"
    by blast
  then show ?thesis
    by (simp only: e sum.case)
qed

section \<open>The two passes\<close>

lemma cls_one_char:
  assumes "cls_match True [CChar a] c"
  shows "code c = code a \<or> code c = code a + 32 \<or> code c + 32 = code a"
proof -
  from assms consider "a = c" | "a = to_upper c" | "a = to_lower c"
    by (auto simp: cls_match_def)
  then show ?thesis
  proof cases
    case 1
    then show ?thesis by simp
  next
    case 2
    show ?thesis
    proof (cases "is_lower c")
      case True
      with 2 have "code a = (code c - 32) mod 256"
        by (simp add: to_upper_def code_def)
      moreover from True have "32 \<le> code c" "code c - 32 < 256"
        unfolding is_lower_def by arith+
      ultimately show ?thesis by simp
    next
      case False
      with 2 show ?thesis by (simp add: to_upper_def)
    qed
  next
    case 3
    show ?thesis
    proof (cases "is_upper c")
      case True
      with 3 have "code a = (code c + 32) mod 256"
        by (simp add: to_lower_def code_def)
      moreover from True have "code c + 32 < 256"
        unfolding is_upper_def by arith
      ultimately show ?thesis by simp
    next
      case False
      with 3 show ?thesis by (simp add: to_lower_def)
    qed
  qed
qed

lemma linkRegex_head:
  assumes "exec True linkRegex u 0 = Some m"
  shows "\<exists>c cs. u = c # cs \<and> (code c = 104 \<or> code c = 136 \<or> code c = 72)"
proof -
  from linkRegex_match(2) [OF assms] obtain c cs where u: "u = c # cs"
    and "cls_match True [CChar CHR ''h''] c"
    by (cases u) auto
  from cls_one_char [OF this(2)] have "code c = 104 \<or> code c = 136 \<or> code c = 72"
    by (auto simp: code_def)
  with u show ?thesis by blast
qed

lemma mentionRegex_match:
  assumes "exec True mentionRegex s li = Some m"
  shows "m_index m < m_end m" and "m_end m \<le> length s"
    and "\<exists>c cs. slice s (m_index m) (m_end m) = c # cs \<and> (code c = 64 \<or> code c = 96 \<or> code c = 32)"
proof -
  let ?r = "Grp 1 (Seq userGroup (Opt (Seq (Chr CHR ''/'') userGroup)))"
  from exec_Some [OF assms] have i: "m_index m \<le> length s" by simp
  from exec_Some_mem [OF assms]
  have h: "(m_end m, m_caps m) \<in> set (ms True (Seq (Chr CHR ''@'') ?r) s (m_index m, []))"
    by (simp only: mentionRegex_def)
  then obtain mid where a: "mid \<in> set (ms True (Chr CHR ''@'') s (m_index m, []))"
    and b: "(m_end m, m_caps m) \<in> set (ms True ?r s mid)"
    by (rule ms_Seq_elim)
  from ms_Cls_elim [OF a [unfolded Chr_def]]
  have c: "m_index m < length s" "cls_match True [CChar CHR ''@''] (s ! m_index m)"
    "mid = (Suc (m_index m), [])"
    by simp_all
  from ms_bounds [OF b] c show e: "m_index m < m_end m" and l: "m_end m \<le> length s"
    by simp_all
  from cls_one_char [OF c(2)]
  have d: "code (s ! m_index m) = 64 \<or> code (s ! m_index m) = 96 \<or> code (s ! m_index m) = 32"
    by (auto simp: code_def)
  have "slice s (m_index m) (m_end m) = s ! m_index m # slice s (Suc (m_index m)) (m_end m)"
    using e c(1) by (simp add: slice_def Cons_nth_drop_Suc [symmetric] Suc_diff_Suc take_Suc_Cons [symmetric]
        del: take_Suc_Cons)
  with d show "\<exists>c cs. slice s (m_index m) (m_end m) = c # cs \<and> (code c = 64 \<or> code c = 96 \<or> code c = 32)"
    by blast
qed

lemma referenceRegex_match:
  assumes "exec True referenceRegex s li = Some m"
  shows "m_index m < m_end m"
    and "(\<exists>c cs. group m 3 = Some (c # cs)) \<or> (group m 3 = None \<and> (\<exists>h. group m 4 = Some h))"
proof -
  let ?opt = "Opt (Seq (Chr CHR ''/'') (Grp 2 projectGroup))"
  let ?num = "Seq (Cls False [CRange CHR ''1'' CHR ''9'']) (Star (Cls False [CDigit]))"
  let ?A = "Seq (Chr CHR ''#'') (Grp 3 ?num)"
  let ?B = "Seq (Chr CHR ''@'') (Grp 4 (Rep 7 (Some 40) hexClass))"
  let ?st = "(m_end m, m_caps m)"
  from exec_Some [OF assms] have i: "m_index m \<le> length s" by simp
  have u: "referenceRegex = Seq (Grp 1 userGroup) (Seq ?opt (Alt ?A ?B))"
    by (simp add: referenceRegex_def)
  from exec_Some_mem [OF assms]
  have h0: "?st \<in> set (ms True (Seq (Grp 1 userGroup) (Seq ?opt (Alt ?A ?B))) s (m_index m, []))"
    by (simp only: u)
  from h0 obtain st1 where s1: "st1 \<in> set (ms True (Grp 1 userGroup) s (m_index m, []))"
    and h1: "?st \<in> set (ms True (Seq ?opt (Alt ?A ?B)) s st1)"
    by (rule ms_Seq_elim)
  from h1 obtain st2 where s2: "st2 \<in> set (ms True ?opt s st1)"
    and h2: "?st \<in> set (ms True (Alt ?A ?B) s st2)"
    by (rule ms_Seq_elim)
  from ms_minlen [OF s1] have "m_index m + 1 \<le> fst st1"
    by (simp add: minlen_userGroup)
  moreover from ms_bounds(1) [OF h1] have "fst st1 \<le> m_end m" by simp
  ultimately show "m_index m < m_end m" by simp
  have k1: "map_of (snd st1) n = None" if "n = 3 \<or> n = 4" for n
    using ms_keeps [OF s1, of n] that by (auto simp: groups_userGroup)
  have k2: "map_of (snd st2) n = None" if "n = 3 \<or> n = 4" for n
    using ms_keeps [OF s2, of n] k1 [OF that] that
    by (auto simp: Opt_def Chr_def groups_projectGroup)
  have l2: "fst st2 \<le> length s"
    using ms_bounds(2) [OF s1] ms_bounds(2) [OF s2] i by simp
  from h2 consider (A) "?st \<in> set (ms True ?A s st2)" | (B) "?st \<in> set (ms True ?B s st2)"
    by (auto simp del: ms.simps(2,3,5,6))
  then show "(\<exists>c cs. group m 3 = Some (c # cs)) \<or> (group m 3 = None \<and> (\<exists>h. group m 4 = Some h))"
  proof cases
    case A
    then obtain mid where a: "mid \<in> set (ms True (Chr CHR ''#'') s st2)"
      and b: "?st \<in> set (ms True (Grp 3 ?num) s mid)"
      by (rule ms_Seq_elim)
    from b obtain st'' where c: "st'' \<in> set (ms True ?num s mid)"
      and d: "?st = (fst st'', (3, slice s (fst mid) (fst st'')) # snd st'')"
      by (rule ms_Grp_elim)
    have "fst mid \<le> length s"
      using ms_bounds(2) [OF a l2] .
    with ms_bounds(2) [OF c] have "fst st'' \<le> length s" by simp
    moreover from ms_minlen [OF c] have "fst mid + 1 \<le> fst st''" by simp
    ultimately have "length (slice s (fst mid) (fst st'')) \<noteq> 0"
      by (simp add: length_slice)
    then obtain x xs where "slice s (fst mid) (fst st'') = x # xs"
      by (cases "slice s (fst mid) (fst st'')") auto
    with d have "group m 3 = Some (x # xs)"
      by (simp add: group_def)
    then show ?thesis by blast
  next
    case B
    then obtain mid where a: "mid \<in> set (ms True (Chr CHR ''@'') s st2)"
      and b: "?st \<in> set (ms True (Grp 4 (Rep 7 (Some 40) hexClass)) s mid)"
      by (rule ms_Seq_elim)
    from b obtain st'' where c: "st'' \<in> set (ms True (Rep 7 (Some 40) hexClass) s mid)"
      and d: "?st = (fst st'', (4, slice s (fst mid) (fst st'')) # snd st'')"
      by (rule ms_Grp_elim)
    have "snd st'' = snd mid"
      by (rule ms_nogroups [OF c]) (simp add: groups_hexClass)
    moreover have "snd mid = snd st2"
      by (rule ms_nogroups [OF a]) (simp add: Chr_def)
    ultimately have "m_caps m = (4, slice s (fst mid) (fst st'')) # snd st2"
      using d by simp
    with k2 [of 3] have "group m 3 = None" "group m 4 = Some (slice s (fst mid) (fst st''))"
      by (simp_all add: group_def)
    then show ?thesis by blast
  qed
qed

lemma visit_unparsed:
  assumes "cs \<noteq> [Text u] \<or> exec True linkRegex u 0 = None"
    and "\<And>x. x \<in> set cs \<Longrightarrow> visit x = Inr x"
  shows "visit (Link u t cs) = Inr (Link u t cs)"
proof -
  from assms(1) have "parse (Link u t cs) = Inr None"
    using parse_not_bare [of cs u t] parse_nomatch [of u t cs] by blast
  moreover have "collect (map visit cs) = Inr cs"
    by (rule collect_same) (rule assms(2))
  ultimately show ?thesis
    by (simp del: parse.simps)
qed

lemma other_head_not_link:
  assumes "code c \<noteq> 104" "code c \<noteq> 136" "code c \<noteq> 72"
  shows "[Text (c # cs)] \<noteq> [Text u] \<or> exec True linkRegex u 0 = None"
proof (cases "exec True linkRegex u 0")
  case None
  then show ?thesis by simp
next
  case (Some m)
  from linkRegex_head [OF Some] assms show ?thesis
    by auto
qed

lemma fresh_reference_inert:
  assumes "replaceReference options s0 usr proj no hash match = Inr (Some n)"
  shows "visit n = Inr n"
proof -
  from assms consider
      (issue) url c cs where "n = Link url None [Text (''#'' @ c # cs)]"
    | (commit) url h where "n = Link url None [Text ''@'', InlineCode (abbr h)]"
    by (auto simp: replaceReference_def Let_def split: if_splits option.splits list.splits)
  then show ?thesis
  proof cases
    case issue
    have "[Text (CHR ''#'' # c # cs)] \<noteq> [Text url] \<or> exec True linkRegex url 0 = None"
      by (rule other_head_not_link) (simp_all add: code_def)
    then have "visit (Link url None [Text (CHR ''#'' # c # cs)]) = Inr (Link url None [Text (CHR ''#'' # c # cs)])"
      by (rule visit_unparsed) auto
    with issue show ?thesis by simp
  next
    case commit
    have "visit (Link url None [Text ''@'', InlineCode (abbr h)]) =
            Inr (Link url None [Text ''@'', InlineCode (abbr h)])"
      by (rule visit_unparsed) auto
    with commit show ?thesis by simp
  qed
qed

lemma fresh_mention_inert:
  assumes "replaceMention options val username match = Inr (Some n)"
    and "val = c # cs" and "code c = 64 \<or> code c = 96 \<or> code c = 32"
  shows "visit n = Inr n"
proof -
  from assms(1) consider
      (strong) url where "n = Link url None [Strong [Text val]]"
    | (plain) url where "n = Link url None [Text val]"
    by (auto simp: replaceMention_def Let_def split: if_splits option.splits)
  then show ?thesis
  proof cases
    case strong
    have "visit (Link url None [Strong [Text val]]) = Inr (Link url None [Strong [Text val]])"
      by (rule visit_unparsed) auto
    with strong show ?thesis by simp
  next
    case plain
    have "[Text (c # cs)] \<noteq> [Text url] \<or> exec True linkRegex url 0 = None"
      by (rule other_head_not_link) (use assms(3) in auto)
    then have "visit (Link url None [Text (c # cs)]) = Inr (Link url None [Text (c # cs)])"
      by (rule visit_unparsed) auto
    with plain assms(2) show ?thesis by simp
  qed
qed

lemma replaceMention_returns: "replaceMention options val username match \<noteq> Inl e"
  by (auto simp: replaceMention_def Let_def split: option.splits)

lemma replaceReference_returns:
  assumes "(\<exists>c cs. no = Some (c # cs)) \<or> (no = None \<and> (\<exists>h. hash = Some h))"
  shows "replaceReference options s0 usr proj no hash match \<noteq> Inl e"
  using assms by (auto simp: replaceReference_def Let_def split: option.splits)

lemma handler_loop_inert:
  "(\<And>m li. exec ic pat val li = Some m \<Longrightarrow>
      m_index m < m_end m \<and>
      (replace (slice val (m_index m) (m_end m)) (group m) \<lparr>input = val, index = m_index m\<rparr> = Inr None \<or>
       (\<exists>n. replace (slice val (m_index m) (m_end m)) (group m) \<lparr>input = val, index = m_index m\<rparr> =
              Inr (Some n) \<and> visit n = Inr n))) \<Longrightarrow>
   (\<And>x. x \<in> set nodes \<Longrightarrow> visit x = Inr x) \<Longrightarrow>
   \<exists>ns. handler_loop ic pat replace val start lastIndex nodes change = Inr ns \<and>
        (\<forall>x \<in> set ns. visit x = Inr x)"
proof -
  assume a: "\<And>m li. exec ic pat val li = Some m \<Longrightarrow>
      m_index m < m_end m \<and>
      (replace (slice val (m_index m) (m_end m)) (group m) \<lparr>input = val, index = m_index m\<rparr> = Inr None \<or>
       (\<exists>n. replace (slice val (m_index m) (m_end m)) (group m) \<lparr>input = val, index = m_index m\<rparr> =
              Inr (Some n) \<and> visit n = Inr n))"
    and b: "\<And>x. x \<in> set nodes \<Longrightarrow> visit x = Inr x"
  show ?thesis
    by (rule handler_loop_nodes [where P = "\<lambda>x. visit x = Inr x" and replace = replace])
       (rule a, assumption, rule b, assumption, simp)
qed

lemma referencePair_inert:
  "\<exists>ns. handler (referencePair options) val = Inr ns \<and> (\<forall>x \<in> set ns. visit x = Inr x)"
proof -
  let ?replace = "\<lambda>s0 g. replaceReference options s0 (g 1) (g 2) (g 3) (g (4::nat))"
  have "\<exists>ns. handler_loop True referenceRegex ?replace val 0 0 [] False = Inr ns \<and>
        (\<forall>x \<in> set ns. visit x = Inr x)"
  proof (rule handler_loop_inert)
    fix m li
    assume m: "exec True referenceRegex val li = Some m"
    let ?r = "replaceReference options (slice val (m_index m) (m_end m)) (group m 1) (group m 2)
                (group m 3) (group m 4) \<lparr>input = val, index = m_index m\<rparr>"
    from referenceRegex_match(2) [OF m] have "\<And>e. ?r \<noteq> Inl e"
      by (intro replaceReference_returns) auto
    then have "?r = Inr None \<or> (\<exists>n. ?r = Inr (Some n))"
      by (cases ?r) auto
    with fresh_reference_inert have "?r = Inr None \<or> (\<exists>n. ?r = Inr (Some n) \<and> visit n = Inr n)"
      by blast
    with referenceRegex_match(1) [OF m]
    show "m_index m < m_end m \<and>
      (?replace (slice val (m_index m) (m_end m)) (group m) \<lparr>input = val, index = m_index m\<rparr> = Inr None \<or>
       (\<exists>n. ?replace (slice val (m_index m) (m_end m)) (group m) \<lparr>input = val, index = m_index m\<rparr> =
              Inr (Some n) \<and> visit n = Inr n))"
      by simp
  qed simp
  then show ?thesis
    by (simp add: handler_def referencePair_def)
qed

lemma mentionPair_inert:
  "\<exists>ns. handler (mentionPair options) val = Inr ns \<and> (\<forall>x \<in> set ns. visit x = Inr x)"
proof -
  let ?replace = "\<lambda>s0 g. replaceMention options s0 (g (1::nat))"
  have "\<exists>ns. handler_loop True mentionRegex ?replace val 0 0 [] False = Inr ns \<and>
        (\<forall>x \<in> set ns. visit x = Inr x)"
  proof (rule handler_loop_inert)
    fix m li
    assume m: "exec True mentionRegex val li = Some m"
    let ?r = "replaceMention options (slice val (m_index m) (m_end m)) (group m 1)
                \<lparr>input = val, index = m_index m\<rparr>"
    have "\<And>e. ?r \<noteq> Inl e"
      by (rule replaceMention_returns)
    then have "?r = Inr None \<or> (\<exists>n. ?r = Inr (Some n))"
      by (cases ?r) auto
    moreover from mentionRegex_match(3) [OF m] obtain c cs where
      "slice val (m_index m) (m_end m) = c # cs" "code c = 64 \<or> code c = 96 \<or> code c = 32"
      by blast
    ultimately have "?r = Inr None \<or> (\<exists>n. ?r = Inr (Some n) \<and> visit n = Inr n)"
      using fresh_mention_inert by blast
    with mentionRegex_match(1) [OF m]
    show "m_index m < m_end m \<and>
      (?replace (slice val (m_index m) (m_end m)) (group m) \<lparr>input = val, index = m_index m\<rparr> = Inr None \<or>
       (\<exists>n. ?replace (slice val (m_index m) (m_end m)) (group m) \<lparr>input = val, index = m_index m\<rparr> =
              Inr (Some n) \<and> visit n = Inr n))"
      by simp
  qed simp
  then show ?thesis
    by (simp add: handler_def mentionPair_def)
qed

lemma visit_visited: "visit t = Inr (visited t)"
  using visit_total [of t] by (auto simp: visited_def)

lemma visited_fixed: "visit x = Inr x \<Longrightarrow> visited x = x"
  by (simp add: visited_def)

lemma collect_visit: "collect (map visit cs) = Inr (map visited cs)"
  unfolding collect_Inr_iff by (simp add: list_all2_conv_all_nth visit_visited)

lemma visited_simps:
  "visited (Text v) = Text v"
  "visited (InlineCode v) = InlineCode v"
  "visited (Strong cs) = Strong (map visited cs)"
  "visited (LinkReference cs) = LinkReference (map visited cs)"
  "visited (Other k w cs) = Other k w (map visited cs)"
  by (simp_all add: visited_def collect_visit)

lemma visited_Link: "\<exists>cs'. visited (Link u t cs) = Link u t cs'"
proof -
  from parse_total obtain r where "parse (Link u t cs) = Inr r"
    by blast
  then show ?thesis
    by (cases r) (simp_all add: visited_def collect_visit del: parse.simps)
qed

lemma replaceIn_total:
  assumes "\<And>val. \<exists>ns. handler p val = Inr ns \<and> (\<forall>x \<in> set ns. visit x = Inr x)"
  shows "\<exists>ns. replaceIn p n = Inr ns"
proof (induction n)
  case (Text v)
  from assms [of v] show ?case by auto
next
  case (Strong cs)
  from collect_total [of cs "replaceIn p", OF Strong] obtain ys where
    "collect (map (replaceIn p) cs) = Inr ys"
    by blast
  then show ?case by simp
next
  case (Other k v cs)
  from collect_total [of cs "replaceIn p", OF Other] obtain ys where
    "collect (map (replaceIn p) cs) = Inr ys"
    by blast
  then show ?case by simp
qed simp_all

lemma replaceIn_replaced:
  assumes "\<And>val. \<exists>ns. handler p val = Inr ns \<and> (\<forall>x \<in> set ns. visit x = Inr x)"
  shows "replaceIn p n = Inr (replaced p n)"
  using replaceIn_total [of p n, OF assms] by (auto simp: replaced_def)

lemma collect_replaceIn:
  assumes "\<And>val. \<exists>ns. handler p val = Inr ns \<and> (\<forall>x \<in> set ns. visit x = Inr x)"
  shows "collect (map (replaceIn p) cs) = Inr (map (replaced p) cs)"
  unfolding collect_Inr_iff
  by (simp add: list_all2_conv_all_nth replaceIn_replaced [OF assms])

lemma replaced_simps:
  assumes "\<And>val. \<exists>ns. handler p val = Inr ns \<and> (\<forall>x \<in> set ns. visit x = Inr x)"
  shows "replaced p (InlineCode v) = [InlineCode v]"
    "replaced p (Strong cs) = [Strong (concat (map (replaced p) cs))]"
    "replaced p (Link u t cs) = [Link u t cs]"
    "replaced p (LinkReference cs) = [LinkReference cs]"
    "replaced p (Other k w cs) = [Other k w (concat (map (replaced p) cs))]"
  by (simp_all add: replaced_def collect_replaceIn [OF assms])

lemma replaced_Text:
  assumes "\<And>val. \<exists>ns. handler p val = Inr ns \<and> (\<forall>x \<in> set ns. visit x = Inr x)"
  shows "map visited (replaced p (Text v)) = replaced p (Text v)"
proof -
  from assms [of v] obtain ns where ns: "handler p v = Inr ns" "\<forall>x \<in> set ns. visit x = Inr x"
    by blast
  then have "replaced p (Text v) = ns"
    by (simp add: replaced_def)
  moreover from ns(2) have "map visited ns = ns"
    by (simp add: map_idI visited_fixed)
  ultimately show ?thesis by simp
qed

lemma replaced_visited:
  assumes "\<And>val. \<exists>ns. handler p val = Inr ns \<and> (\<forall>x \<in> set ns. visit x = Inr x)"
  shows "replaced p (visited n) = map visited (replaced p n)"
proof (induction n)
  case (Text v)
  show ?case
    by (simp add: visited_simps replaced_Text [OF assms])
next
  case (InlineCode v)
  show ?case
    by (simp add: visited_simps replaced_simps [OF assms])
next
  case (Strong cs)
  then have e: "map (replaced p) (map visited cs) = map (map visited) (map (replaced p) cs)"
    by simp
  have "concat (map (replaced p) (map visited cs)) = map visited (concat (map (replaced p) cs))"
    by (simp only: e map_concat)
  then show ?case
    by (simp add: visited_simps replaced_simps [OF assms])
next
  case (Link u t cs)
  from visited_Link obtain cs' where "visited (Link u t cs) = Link u t cs'"
    by blast
  then show ?case
    by (simp add: replaced_simps [OF assms])
next
  case (LinkReference cs)
  show ?case
    by (simp add: visited_simps replaced_simps [OF assms])
next
  case (Other k w cs)
  then have e: "map (replaced p) (map visited cs) = map (map visited) (map (replaced p) cs)"
    by simp
  have "concat (map (replaced p) (map visited cs)) = map visited (concat (map (replaced p) cs))"
    by (simp only: e map_concat)
  then show ?case
    by (simp add: visited_simps replaced_simps [OF assms])
qed

lemma replaceTree_visited:
  assumes "\<And>val. \<exists>ns. handler p val = Inr ns \<and> (\<forall>x \<in> set ns. visit x = Inr x)"
  shows "\<exists>t'. replaceTree p t = Inr t' \<and> replaceTree p (visited t) = Inr (visited t')"
proof (cases "\<exists>v. t = Text v")
  case True
  then show ?thesis
    by (auto simp: replaceTree_def visited_simps)
next
  case False
  then obtain x where x: "replaced p t = [x]"
    by (cases t) (simp_all add: replaced_simps [OF assms])
  have "\<exists>y. replaced p (visited t) = [y] \<and> (\<forall>v. visited t \<noteq> Text v)"
  proof (cases t)
    case (Text v)
    with False show ?thesis by simp
  next
    case (Link u ti cs)
    from visited_Link obtain cs' where "visited (Link u ti cs) = Link u ti cs'"
      by blast
    with Link show ?thesis
      by (simp add: replaced_simps [OF assms])
  qed (simp_all add: visited_simps replaced_simps [OF assms])
  then obtain y where y: "replaced p (visited t) = [y]" and nt: "\<forall>v. visited t \<noteq> Text v"
    by blast
  from replaced_visited [OF assms, of t] x y have yx: "y = visited x"
    by simp
  from x have "replaceIn p t = Inr [x]"
    by (simp add: replaceIn_replaced [OF assms] del: replaceIn.simps)
  with False have "replaceTree p t = Inr x"
    by (cases t) (simp_all add: replaceTree_def del: replaceIn.simps)
  moreover from y have "replaceIn p (visited t) = Inr [y]"
    by (simp add: replaceIn_replaced [OF assms] del: replaceIn.simps)
  with nt have "replaceTree p (visited t) = Inr y"
    by (cases "visited t") (simp_all add: replaceTree_def del: replaceIn.simps)
  ultimately show ?thesis
    using yx by simp
qed

lemma scanText_visited:
  "\<exists>t'. scanText options t = Inr t' \<and> scanText options (visited t) = Inr (visited t')"
proof -
  from replaceTree_visited [of "referencePair options" t, OF referencePair_inert]
  obtain t1 where a: "replaceTree (referencePair options) t = Inr t1"
    "replaceTree (referencePair options) (visited t) = Inr (visited t1)"
    by blast
  from replaceTree_visited [of "mentionPair options" t1, OF mentionPair_inert]
  obtain t2 where b: "replaceTree (mentionPair options) t1 = Inr t2"
    "replaceTree (mentionPair options) (visited t1) = Inr (visited t2)"
    by blast
  from a b show ?thesis
    by (simp add: scanText_def)
qed

lemma both_passes_example:
  "remarkGithub noOptions (Other ''root'' None [Other ''paragraph'' None
      [Text ''@a u/p#1'',
       Link ''https://github.com/u/p/pull/1'' None [Text ''https://github.com/u/p/pull/1'']]]) =
     Inr (Other ''root'' None [Other ''paragraph'' None
           [Link ''https://github.com/a'' None [Strong [Text ''@a'']],
            Text '' '',
            Link ''https://github.com/u/p/issues/1'' None [Text ''#1''],
            Link ''https://github.com/u/p/pull/1'' None [Text ''u#1'']]])"
  by code_simp

lemma mention_scan_example:
  "handler (mentionPair noOptions) ''@a'' =
     Inr [Link ''https://github.com/a'' None [Strong [Text ''@a'']]]"
  by code_simp

lemma reference_scan_example:
  "handler (referencePair noOptions) ''u/p#1'' =
     Inr [Link ''https://github.com/u/p/issues/1'' None [Text ''#1'']]"
  by code_simp

text \<open>
  C7. For every tree and every options record, scanning the texts and then visiting the
  links (the order of \<open>remarkGithub\<close>) returns a tree, and it is the tree that visiting
  the links first and scanning the texts afterwards returns. The nodes that the scan
  of a text puts in its place, the new links among them, are returned unchanged by
  the visit of the links: the text of a new link begins with \<open>#\<close> or \<open>@\<close>, or is
  inside a \<open>strong\<close> node, so that it is never the URL of the link. The scan in turn
  never enters a link, and so never reads the children that the visit gives one.
\<close>

theorem pass_order_independent:
  "remarkGithub options t = (case visit t of Inl e \<Rightarrow> Inl e | Inr t2 \<Rightarrow> scanText options t2) \<and>
   (\<exists>t'. remarkGithub options t = Inr t') \<and>
   (\<forall>ns. handler (referencePair options) val = Inr ns \<longrightarrow> (\<forall>x \<in> set ns. visit x = Inr x)) \<and>
   (\<forall>ns. handler (mentionPair options) val = Inr ns \<longrightarrow> (\<forall>x \<in> set ns. visit x = Inr x))"
proof -
  from scanText_visited obtain t' where
    s: "scanText options t = Inr t'" "scanText options (visited t) = Inr (visited t')"
    by blast
  from s(1) have a: "remarkGithub options t = Inr (visited t')"
    by (simp add: remarkGithub_def visit_visited)
  from s(2) have b: "(case visit t of Inl e \<Rightarrow> Inl e | Inr t2 \<Rightarrow> scanText options t2) = Inr (visited t')"
    by (simp add: visit_visited)
  from referencePair_inert [of options val]
  have c: "\<forall>ns. handler (referencePair options) val = Inr ns \<longrightarrow> (\<forall>x \<in> set ns. visit x = Inr x)"
    by auto
  from mentionPair_inert [of options val]
  have d: "\<forall>ns. handler (mentionPair options) val = Inr ns \<longrightarrow> (\<forall>x \<in> set ns. visit x = Inr x)"
    by auto
  from a b have "remarkGithub options t =
      (case visit t of Inl e \<Rightarrow> Inl e | Inr t2 \<Rightarrow> scanText options t2)"
    by simp
  moreover from a have "\<exists>t'. remarkGithub options t = Inr t'"
    by blast
  ultimately show ?thesis
    using c d by (intro conjI)
qed

theorem pass_order_independent_witness:
  "(case visit (Other ''root'' None [Other ''paragraph'' None
      [Text ''@a u/p#1'',
       Link ''https://github.com/u/p/pull/1'' None [Text ''https://github.com/u/p/pull/1'']]])
    of Inl e \<Rightarrow> Inl e | Inr t2 \<Rightarrow> scanText noOptions t2) =
     Inr (Other ''root'' None [Other ''paragraph'' None
           [Link ''https://github.com/a'' None [Strong [Text ''@a'']],
            Text '' '',
            Link ''https://github.com/u/p/issues/1'' None [Text ''#1''],
            Link ''https://github.com/u/p/pull/1'' None [Text ''u#1'']]]) \<and>
   visit (Link ''https://github.com/a'' None [Strong [Text ''@a'']]) =
     Inr (Link ''https://github.com/a'' None [Strong [Text ''@a'']]) \<and>
   visit (Link ''https://github.com/u/p/issues/1'' None [Text ''#1'']) =
     Inr (Link ''https://github.com/u/p/issues/1'' None [Text ''#1''])"
proof -
  let ?t = "Other ''root'' None [Other ''paragraph'' None
      [Text ''@a u/p#1'',
       Link ''https://github.com/u/p/pull/1'' None [Text ''https://github.com/u/p/pull/1'']]]"
  let ?m = "Link ''https://github.com/a'' None [Strong [Text ''@a'']]"
  let ?r = "Link ''https://github.com/u/p/issues/1'' None [Text ''#1'']"
  have im: "?m \<in> set [?m]" and ir: "?r \<in> set [?r]"
    by simp_all
  from pass_order_independent [where options = noOptions and t = ?t and val = "''@a''", THEN conjunct1]
  have "(case visit ?t of Inl e \<Rightarrow> Inl e | Inr t2 \<Rightarrow> scanText noOptions t2) = remarkGithub noOptions ?t"
    by (rule sym)
  then have a: "(case visit ?t of Inl e \<Rightarrow> Inl e | Inr t2 \<Rightarrow> scanText noOptions t2) =
     Inr (Other ''root'' None [Other ''paragraph'' None
           [Link ''https://github.com/a'' None [Strong [Text ''@a'']],
            Text '' '',
            Link ''https://github.com/u/p/issues/1'' None [Text ''#1''],
            Link ''https://github.com/u/p/pull/1'' None [Text ''u#1'']]])"
    by (simp only: both_passes_example)
  have b: "visit ?m = Inr ?m"
    by (rule pass_order_independent [where options = noOptions and val = "''@a''",
          THEN conjunct2, THEN conjunct2, THEN conjunct2, rule_format, OF mention_scan_example im])
  have c: "visit ?r = Inr ?r"
    by (rule pass_order_independent [where options = noOptions and val = "''u/p#1''",
          THEN conjunct2, THEN conjunct2, THEN conjunct1, rule_format, OF reference_scan_example ir])
  from a b c show ?thesis
    by (intro conjI)
qed

section \<open>The characters around a match\<close>

text \<open>
  C6. \<open>replaceMention\<close> rejects a match when the character before it is a word
  character or a backtick, and when the character behind it is a word character, a
  slash or a backtick; and two match objects that show the same two characters at
  these places give the same result: of the scanned text, only these two characters
  are read.
\<close>

theorem mention_boundary_law:
  "((\<exists>c. charAt (input match) (int (index match) - 1) = [c] \<and> (is_word c \<or> c = CHR ''`'')) \<or>
    (\<exists>c. charAt (input match) (int (index match) + int (length val)) = [c] \<and>
         (is_word c \<or> c = CHR ''/'' \<or> c = CHR ''`''))
    \<longrightarrow> replaceMention options val username match = Inr None) \<and>
   (charAt (input match) (int (index match) - 1) = charAt (input match') (int (index match') - 1) \<and>
    charAt (input match) (int (index match) + int (length val)) =
      charAt (input match') (int (index match') + int (length val))
    \<longrightarrow> replaceMention options val username match = replaceMention options val username match')"
  by (auto simp: replaceMention_def mentionBefore_test mentionAfter_test)

theorem mention_boundary_law_witness:
  "replaceMention noOptions ''@user'' (Some ''user'') \<lparr>input = ''a@user'', index = 1\<rparr> = Inr None \<and>
   replaceMention noOptions ''@user'' (Some ''user'') \<lparr>input = ''@user/x'', index = 0\<rparr> = Inr None \<and>
   replaceMention noOptions ''@user'' (Some ''user'') \<lparr>input = ''(@user)'', index = 1\<rparr> =
   replaceMention noOptions ''@user'' (Some ''user'') \<lparr>input = ''and (@user) more'', index = 5\<rparr>"
proof -
  have a: "charAt ''a@user'' (int 1 - 1) = [CHR ''a'']" "is_word CHR ''a''"
    by (simp_all add: charAt_def is_word_def is_lower_def code_def)
  have b: "charAt ''@user/x'' (int 0 + int (length ''@user'')) = [CHR ''/'']"
    by (simp add: charAt_def)
  have c: "charAt ''(@user)'' (int 1 - 1) = charAt ''and (@user) more'' (int 5 - 1)"
    "charAt ''(@user)'' (int 1 + int (length ''@user'')) =
     charAt ''and (@user) more'' (int 5 + int (length ''@user''))"
    by (simp_all add: charAt_def)
  show ?thesis
    using a b c
      mention_boundary_law [where match = "\<lparr>input = ''a@user'', index = 1\<rparr>" and val = "''@user''"
                              and options = noOptions and username = "Some ''user''"]
      mention_boundary_law [where match = "\<lparr>input = ''@user/x'', index = 0\<rparr>" and val = "''@user''"
                              and options = noOptions and username = "Some ''user''"]
      mention_boundary_law [where match = "\<lparr>input = ''(@user)'', index = 1\<rparr>" and val = "''@user''"
                              and options = noOptions and username = "Some ''user''"
                              and match' = "\<lparr>input = ''and (@user) more'', index = 5\<rparr>"]
    by simp
qed

lemma tivie_linked:
  "remarkGithub noOptions (Other ''root'' None [Other ''paragraph'' None [Text ''@tivie'']]) =
     Inr (Other ''root'' None [Other ''paragraph'' None
            [Link ''https://github.com/tivie'' None [Strong [Text ''@tivie'']]]])"
  by code_simp

text \<open>
  C10. For a match at offset 0 the character before it is \<open>charAt(-1)\<close>, the empty
  string, and neither test on the character before a match rejects it. Such a mention
  is replaced by a link as soon as the character behind it, the denylist and the
  result of \<open>buildUrl\<close> (a string that is not empty) allow it, and so is a reference.
  A text that is \<open>@tivie\<close> and nothing else is linked.
\<close>

theorem start_of_text_acceptance:
  assumes "index match = 0"
  shows "charAt (input match) (int (index match) - 1) = [] \<and>
    \<not> test False mentionBefore (charAt (input match) (int (index match) - 1)) \<and>
    \<not> test False referenceBefore (charAt (input match) (int (index match) - 1)) \<and>
    (\<not> test False mentionAfter (charAt (input match) (int (index match) + int (length val))) \<and>
     (\<forall>name. username = Some name \<longrightarrow> name \<notin> denyMention) \<and>
     buildUrl options (MentionValues username) = Some url \<and> url \<noteq> []
     \<longrightarrow> replaceMention options val username match =
           Inr (Some (Link url None
             [if mentionStrong options \<noteq> Some False then Strong [Text val] else Text val]))) \<and>
    (\<not> test False referenceAfter (charAt (input match) (int (index match) + int (length val))) \<and>
     n \<noteq> [] \<and> buildUrl options (IssueValues usr proj n) = Some url \<and> url \<noteq> []
     \<longrightarrow> replaceReference options val usr proj (Some n) hash match =
           Inr (Some (Link url None [Text (''#'' @ n)]))) \<and>
    (\<not> test False referenceAfter (charAt (input match) (int (index match) + int (length val))) \<and>
     buildUrl options (CommitValues usr proj (Some h)) = Some url \<and> url \<noteq> []
     \<longrightarrow> replaceReference options val usr proj None (Some h) match =
           Inr (Some (Link url None [Text ''@'', InlineCode (abbr h)]))) \<and>
    remarkGithub noOptions (Other ''root'' None [Other ''paragraph'' None [Text ''@tivie'']]) =
      Inr (Other ''root'' None [Other ''paragraph'' None
             [Link ''https://github.com/tivie'' None [Strong [Text ''@tivie'']]]])"
proof -
  from assms have e: "charAt (input match) (int (index match) - 1) = []"
    by (simp add: charAt_def)
  have b: "\<not> test False mentionBefore (charAt (input match) (int (index match) - 1))"
    "\<not> test False referenceBefore (charAt (input match) (int (index match) - 1))"
    unfolding e mentionBefore_def referenceBefore_def by (simp_all add: test_Cls_Nil)
  show ?thesis
    using e b tivie_linked
    by (auto simp: replaceMention_accepts replaceReference_issue replaceReference_commit)
qed

theorem start_of_text_acceptance_witness:
  "replaceMention noOptions ''@tivie'' (Some ''tivie'') \<lparr>input = ''@tivie'', index = 0\<rparr> =
     Inr (Some (Link ''https://github.com/tivie'' None [Strong [Text ''@tivie'']])) \<and>
   replaceReference noOptions ''a/b#1'' (Some ''a'') (Some ''b'') (Some ''1'') None
       \<lparr>input = ''a/b#1'', index = 0\<rparr> =
     Inr (Some (Link ''https://github.com/a/b/issues/1'' None [Text ''#1'']))"
proof -
  have a: "\<not> test False mentionAfter (charAt ''@tivie'' (int 0 + int (length ''@tivie'')))"
    "\<not> test False referenceAfter (charAt ''a/b#1'' (int 0 + int (length ''a/b#1'')))"
    by (simp_all add: charAt_def mentionAfter_def referenceAfter_def test_Cls_Nil)
  have d: "\<forall>name. Some ''tivie'' = Some name \<longrightarrow> name \<notin> denyMention"
    by (simp add: denyMention_def)
  have u: "buildUrl noOptions (MentionValues (Some ''tivie'')) = Some ''https://github.com/tivie''"
    "buildUrl noOptions (IssueValues (Some ''a'') (Some ''b'') ''1'') = Some ''https://github.com/a/b/issues/1''"
    by (simp_all add: buildUrl_def noOptions_def)
  have s: "mentionStrong noOptions \<noteq> Some False"
    by (simp add: noOptions_def)
  show ?thesis
    using a d u s
      start_of_text_acceptance [where match = "\<lparr>input = ''@tivie'', index = 0\<rparr>" and val = "''@tivie''"
        and username = "Some ''tivie''" and options = noOptions and url = "''https://github.com/tivie''"]
      start_of_text_acceptance [where match = "\<lparr>input = ''a/b#1'', index = 0\<rparr>" and val = "''a/b#1''"
        and usr = "Some ''a''" and proj = "Some ''b''" and n = "''1''" and hash = None
        and options = noOptions and url = "''https://github.com/a/b/issues/1''"]
    by simp
qed

text \<open>
  C2, as the claim states it, fails for a hook that returns the empty string: the
  reference is validated and \<open>buildUrl\<close> returns a string, and no link is produced.
\<close>

theorem reference_display_counterexample:
  "\<not> test False referenceBefore (charAt ''a#1'' (int 0 - 1)) \<and>
   \<not> test False referenceAfter (charAt ''a#1'' (int 0 + int (length ''a#1''))) \<and>
   buildUrl \<lparr>repository = None, mentionStrong = None, buildUrlOpt = Some emptyBuildUrl\<rparr>
     (IssueValues (Some ''a'') None ''1'') = Some [] \<and>
   replaceReference \<lparr>repository = None, mentionStrong = None, buildUrlOpt = Some emptyBuildUrl\<rparr>
     ''a#1'' (Some ''a'') None (Some ''1'') None \<lparr>input = ''a#1'', index = 0\<rparr> = Inr None"
  by (simp add: charAt_def referenceBefore_def referenceAfter_def test_Cls_Nil buildUrl_def
      emptyBuildUrl_def replaceReference_def)

text \<open>
  C2, amended. For a validated reference match for which \<open>buildUrl\<close> returns a string
  that is not empty, \<open>replaceReference\<close> returns a link to that URL with the title
  \<open>null\<close>, whose children are the one text node \<open>#\<close> and the number when a number was
  captured, and the text node \<open>@\<close> and an inline code node with the first
  \<open>min 7 (length hash)\<close> characters of the hash when a hash was captured. The children
  are built from the number or the hash alone: the user and the project do not occur
  in them.
\<close>

theorem reference_display_shape:
  assumes "\<not> test False referenceBefore (charAt (input match) (int (index match) - 1))"
    and "\<not> test False referenceAfter (charAt (input match) (int (index match) + int (length s0)))"
    and "url \<noteq> []"
  shows "(n \<noteq> [] \<and> buildUrl options (IssueValues usr proj n) = Some url
          \<longrightarrow> replaceReference options s0 usr proj (Some n) hash match =
                Inr (Some (Link url None [Text (''#'' @ n)]))) \<and>
         (buildUrl options (CommitValues usr proj (Some h)) = Some url
          \<longrightarrow> replaceReference options s0 usr proj None (Some h) match =
                Inr (Some (Link url None [Text ''@'', InlineCode (take (min 7 (length h)) h)])))"
proof -
  have "take (min 7 (length h)) h = abbr h"
    by (simp add: abbr_take min_def)
  with assms show ?thesis
    by (simp add: replaceReference_issue replaceReference_commit)
qed

theorem reference_display_shape_witness:
  "replaceReference noOptions ''wooorm/remark-github#1'' (Some ''wooorm'') (Some ''remark-github'')
       (Some ''1'') None \<lparr>input = ''see wooorm/remark-github#1'', index = 4\<rparr> =
     Inr (Some (Link ''https://github.com/wooorm/remark-github/issues/1'' None [Text ''#1''])) \<and>
   replaceReference noOptions ''wooorm@deadbee1'' (Some ''wooorm'') None None (Some ''deadbee1'')
       \<lparr>input = ''wooorm@deadbee1'', index = 0\<rparr> =
     Inr (Some (Link ''https://github.com/wooorm//commit/deadbee1'' None
                  [Text ''@'', InlineCode ''deadbee'']))"
proof -
  have a: "\<not> test False referenceBefore (charAt ''see wooorm/remark-github#1'' (int 4 - 1))"
    "\<not> test False referenceAfter (charAt ''see wooorm/remark-github#1'' (int 4 + int (length ''wooorm/remark-github#1'')))"
    "\<not> test False referenceBefore (charAt ''wooorm@deadbee1'' (int 0 - 1))"
    "\<not> test False referenceAfter (charAt ''wooorm@deadbee1'' (int 0 + int (length ''wooorm@deadbee1'')))"
    by (simp_all add: charAt_def referenceBefore_def referenceAfter_def test_Cls cls_match_def)
  have u: "buildUrl noOptions (IssueValues (Some ''wooorm'') (Some ''remark-github'') ''1'') =
             Some ''https://github.com/wooorm/remark-github/issues/1''"
    "buildUrl noOptions (CommitValues (Some ''wooorm'') None (Some ''deadbee1'')) =
             Some ''https://github.com/wooorm//commit/deadbee1''"
    by (simp_all add: buildUrl_def noOptions_def)
  show ?thesis
    using a u
      reference_display_shape [where match = "\<lparr>input = ''see wooorm/remark-github#1'', index = 4\<rparr>"
        and ?s0.0 = "''wooorm/remark-github#1''"
        and url = "''https://github.com/wooorm/remark-github/issues/1''"
        and n = "''1''" and options = noOptions and usr = "Some ''wooorm''" and proj = "Some ''remark-github''"
        and hash = None]
      reference_display_shape [where match = "\<lparr>input = ''wooorm@deadbee1'', index = 0\<rparr>"
        and ?s0.0 = "''wooorm@deadbee1''"
        and url = "''https://github.com/wooorm//commit/deadbee1''"
        and h = "''deadbee1''" and options = noOptions and usr = "Some ''wooorm''" and proj = None]
    by simp
qed

section \<open>Matches that a replace function rejects\<close>

lemma exec_end:
  assumes "exec ic r s li = Some m"
  shows "m_end m \<le> length s"
proof -
  from exec_Some [OF assms] have "m_index m \<le> length s"
    by simp
  with ms_bounds(2) [OF exec_Some_mem [OF assms]] show ?thesis
    by simp
qed

lemma cls_at:
  assumes "cls_match True [CChar CHR ''@''] c"
  shows "c = CHR ''@''"
proof -
  from assms consider "CHR ''@'' = c" | "CHR ''@'' = to_upper c" | "CHR ''@'' = to_lower c"
    by (auto simp: cls_match_def)
  then show ?thesis
  proof cases
    case 1
    then show ?thesis by simp
  next
    case 2
    show ?thesis
    proof (cases "is_lower c")
      case True
      with 2 have "code CHR ''@'' = (code c - 32) mod 256"
        by (simp add: to_upper_def code_def)
      moreover from True have "97 \<le> code c" "code c - 32 < 256"
        unfolding is_lower_def by arith+
      ultimately show ?thesis by (simp add: code_def)
    next
      case False
      with 2 show ?thesis by (simp add: to_upper_def)
    qed
  next
    case 3
    show ?thesis
    proof (cases "is_upper c")
      case True
      with 3 have "code CHR ''@'' = (code c + 32) mod 256"
        by (simp add: to_lower_def code_def)
      moreover from True have "65 \<le> code c" "code c + 32 < 256"
        unfolding is_upper_def by arith+
      ultimately show ?thesis by (simp add: code_def)
    next
      case False
      with 3 show ?thesis by (simp add: to_lower_def)
    qed
  qed
qed

text \<open>The text of a match of \<open>mentionRegex\<close> is \<open>@\<close> and the captured name.\<close>

lemma mentionRegex_text:
  assumes "exec True mentionRegex s li = Some m"
  shows "\<exists>name. group m 1 = Some name \<and> slice s (m_index m) (m_end m) = CHR ''@'' # name"
proof -
  let ?r = "Seq userGroup (Opt (Seq (Chr CHR ''/'') userGroup))"
  from exec_Some_mem [OF assms]
  have "(m_end m, m_caps m) \<in> set (ms True (Seq (Chr CHR ''@'') (Grp 1 ?r)) s (m_index m, []))"
    by (simp only: mentionRegex_def)
  then obtain mid where a: "mid \<in> set (ms True (Chr CHR ''@'') s (m_index m, []))"
    and b: "(m_end m, m_caps m) \<in> set (ms True (Grp 1 ?r) s mid)"
    by (rule ms_Seq_elim)
  from ms_Cls_elim [OF a [unfolded Chr_def]]
  have c: "m_index m < length s" "cls_match True [CChar CHR ''@''] (s ! m_index m)"
    "mid = (Suc (m_index m), [])"
    by simp_all
  from b obtain st'' where d: "(m_end m, m_caps m) = (fst st'', (1, slice s (fst mid) (fst st'')) # snd st'')"
    by (rule ms_Grp_elim)
  with c(3) have g: "group m 1 = Some (slice s (Suc (m_index m)) (m_end m))"
    by (simp add: group_def)
  from mentionRegex_match(1) [OF assms] have e: "m_index m < m_end m" .
  have "slice s (m_index m) (m_end m) = s ! m_index m # slice s (Suc (m_index m)) (m_end m)"
    using e c(1) by (simp add: slice_def Cons_nth_drop_Suc [symmetric] Suc_diff_Suc take_Suc_Cons [symmetric]
        del: take_Suc_Cons)
  with cls_at [OF c(2)] g show ?thesis
    by simp
qed

lemma mention_loop_returns:
  "\<exists>ns. handler_loop True mentionRegex (\<lambda>s0 g. replaceMention options s0 (g 1))
          val start lastIndex nodes change = Inr ns"
proof -
  let ?replace = "\<lambda>s0 g. replaceMention options s0 (g (1::nat))"
  have "\<exists>ns. handler_loop True mentionRegex ?replace val start lastIndex nodes change = Inr ns \<and>
        (\<forall>x \<in> set ns. True)"
  proof (rule handler_loop_nodes [where P = "\<lambda>x. True" and replace = ?replace])
    fix m li
    assume m: "exec True mentionRegex val li = Some m"
    let ?r = "replaceMention options (slice val (m_index m) (m_end m)) (group m 1)
                \<lparr>input = val, index = m_index m\<rparr>"
    have "\<And>e. ?r \<noteq> Inl e"
      by (rule replaceMention_returns)
    then have "?r = Inr None \<or> (\<exists>n. ?r = Inr (Some n))"
      by (cases ?r) auto
    with mentionRegex_match(1) [OF m]
    show "m_index m < m_end m \<and>
      (?replace (slice val (m_index m) (m_end m)) (group m) \<lparr>input = val, index = m_index m\<rparr> = Inr None \<or>
       (\<exists>n. ?replace (slice val (m_index m) (m_end m)) (group m) \<lparr>input = val, index = m_index m\<rparr> =
              Inr (Some n) \<and> True))"
      by simp
  qed simp_all
  then show ?thesis
    by blast
qed

lemma reference_loop_returns:
  "\<exists>ns. handler_loop True referenceRegex (\<lambda>s0 g. replaceReference options s0 (g 1) (g 2) (g 3) (g 4))
          val start lastIndex nodes change = Inr ns"
proof -
  let ?replace = "\<lambda>s0 g. replaceReference options s0 (g 1) (g 2) (g 3) (g (4::nat))"
  have "\<exists>ns. handler_loop True referenceRegex ?replace val start lastIndex nodes change = Inr ns \<and>
        (\<forall>x \<in> set ns. True)"
  proof (rule handler_loop_nodes [where P = "\<lambda>x. True" and replace = ?replace])
    fix m li
    assume m: "exec True referenceRegex val li = Some m"
    let ?r = "replaceReference options (slice val (m_index m) (m_end m)) (group m 1) (group m 2)
                (group m 3) (group m 4) \<lparr>input = val, index = m_index m\<rparr>"
    from referenceRegex_match(2) [OF m] have "\<And>e. ?r \<noteq> Inl e"
      by (intro replaceReference_returns) auto
    then have "?r = Inr None \<or> (\<exists>n. ?r = Inr (Some n))"
      by (cases ?r) auto
    with referenceRegex_match(1) [OF m]
    show "m_index m < m_end m \<and>
      (?replace (slice val (m_index m) (m_end m)) (group m) \<lparr>input = val, index = m_index m\<rparr> = Inr None \<or>
       (\<exists>n. ?replace (slice val (m_index m) (m_end m)) (group m) \<lparr>input = val, index = m_index m\<rparr> =
              Inr (Some n) \<and> True))"
      by simp
  qed simp_all
  then show ?thesis
    by blast
qed

text \<open>
  A match that the replace function rejects adds no node, and the text from \<open>start\<close>
  to the end of the match, at least, is in one text node of the result.
\<close>

lemma rejected_span_kept:
  assumes "exec ic pat val lastIndex = Some m"
    and "replace (slice val (m_index m) (m_end m)) (group m) \<lparr>input = val, index = m_index m\<rparr> = Inr None"
    and "m_index m < m_end m"
    and "start \<le> lastIndex" and "change \<or> start = 0"
    and "handler_loop ic pat replace val start lastIndex nodes change = Inr ns"
  shows "\<exists>b. m_end m \<le> b \<and> b \<le> length val \<and> Text (slice val start b) \<in> set ns"
proof -
  from assms(6) have "handler_loop ic pat replace val start (m_end m) nodes change = Inr ns"
    unfolding handler_loop_rejected [where replace = replace, OF assms(1,2,3)] .
  moreover from exec_Some [OF assms(1)] assms(3,4) have "start < m_end m"
    by simp
  moreover have "m_end m \<le> length val"
    by (rule exec_end [OF assms(1)])
  ultimately show ?thesis
    using assms(5) by (intro handler_loop_keeps_text [where replace = replace and lastIndex = "m_end m"]) simp_all
qed

text \<open>A node that the replace function returns for a match is in the result.\<close>

lemma accepted_node_kept:
  assumes "exec ic pat val lastIndex = Some m"
    and "replace (slice val (m_index m) (m_end m)) (group m) \<lparr>input = val, index = m_index m\<rparr> =
           Inr (Some n)"
    and "m_index m < m_end m"
    and "handler_loop ic pat replace val start lastIndex nodes change = Inr ns"
  shows "n \<in> set ns"
proof -
  let ?nodes = "nodes @ (if start \<noteq> m_index m then [Text (slice val start (m_index m))] else []) @ [n]"
  from assms(4) have "handler_loop ic pat replace val (m_end m) (m_end m) ?nodes True = Inr ns"
    unfolding handler_loop_accepted [where replace = replace, OF assms(1,2,3)] .
  from handler_loop_prefix [OF TrueI this] obtain rest where "ns = ?nodes @ rest"
    by blast
  then show ?thesis
    by simp
qed

section \<open>The denylist\<close>

lemma mention_link_shape:
  assumes "replaceMention options val username match = Inr (Some n)"
  shows "\<exists>url. username \<noteq> Some ''mention'' \<and> username \<noteq> Some ''mentions'' \<and>
           (n = Link url None [Strong [Text val]] \<or> n = Link url None [Text val])"
  using assms
  by (auto simp: replaceMention_def denyMention_def Let_def split: if_splits option.splits)

lemma mention_scan_links:
  assumes "handler (mentionPair options) val = Inr ns"
    and "Link url title cs \<in> set ns"
  shows "\<exists>name. name \<noteq> ''mention'' \<and> name \<noteq> ''mentions'' \<and>
           (cs = [Strong [Text (CHR ''@'' # name)]] \<or> cs = [Text (CHR ''@'' # name)])"
proof -
  define P where "P = (\<lambda>x. \<forall>url title cs. x = Link url title cs \<longrightarrow>
     (\<exists>name. name \<noteq> ''mention'' \<and> name \<noteq> ''mentions'' \<and>
        (cs = [Strong [Text (CHR ''@'' # name)]] \<or> cs = [Text (CHR ''@'' # name)])))"
  let ?replace = "\<lambda>s0 g. replaceMention options s0 (g (1::nat))"
  have "\<exists>ns. handler_loop True mentionRegex ?replace val 0 0 [] False = Inr ns \<and> (\<forall>x \<in> set ns. P x)"
  proof (rule handler_loop_nodes [where P = P and replace = ?replace])
    fix m li
    assume m: "exec True mentionRegex val li = Some m"
    let ?r = "replaceMention options (slice val (m_index m) (m_end m)) (group m 1)
                \<lparr>input = val, index = m_index m\<rparr>"
    from mentionRegex_text [OF m] obtain name where name: "group m 1 = Some name"
      "slice val (m_index m) (m_end m) = CHR ''@'' # name"
      by blast
    have "\<And>e. ?r \<noteq> Inl e"
      by (rule replaceMention_returns)
    then consider "?r = Inr None" | n where "?r = Inr (Some n)"
      by (cases ?r) auto
    then have d: "?r = Inr None \<or> (\<exists>n. ?r = Inr (Some n) \<and> P n)"
    proof cases
      case 1
      then show ?thesis by simp
    next
      case 2
      from mention_link_shape [OF 2] obtain u where
        u: "group m 1 \<noteq> Some ''mention''" "group m 1 \<noteq> Some ''mentions''"
          "n = Link u None [Strong [Text (slice val (m_index m) (m_end m))]] \<or>
           n = Link u None [Text (slice val (m_index m) (m_end m))]"
        by blast
      from u(1,2) name(1) have nn: "name \<noteq> ''mention''" "name \<noteq> ''mentions''"
        by simp_all
      from u(3) have "n = Link u None [Strong [Text (CHR ''@'' # name)]] \<or>
           n = Link u None [Text (CHR ''@'' # name)]"
        unfolding name(2) .
      with nn have "P n"
        unfolding P_def by (auto intro!: exI [of _ name])
      with 2 show ?thesis
        by (intro disjI2 exI [of _ n] conjI)
    qed
    from mentionRegex_match(1) [OF m] d
    show "m_index m < m_end m \<and>
      (?replace (slice val (m_index m) (m_end m)) (group m) \<lparr>input = val, index = m_index m\<rparr> = Inr None \<or>
       (\<exists>n. ?replace (slice val (m_index m) (m_end m)) (group m) \<lparr>input = val, index = m_index m\<rparr> =
              Inr (Some n) \<and> P n))"
      by (rule conjI)
  next
    fix x :: node
    assume "x \<in> set []"
    then show "P x" by simp
  next
    fix v
    show "P (Text v)" by (simp add: P_def)
  qed
  moreover from assms(1)
  have "handler_loop True mentionRegex ?replace val 0 0 [] False = Inr ns"
    by (simp add: handler_def mentionPair_def)
  ultimately have "\<forall>x \<in> set ns. P x"
    by simp
  with assms(2) have "P (Link url title cs)"
    by blast
  then have "\<forall>u t c. Link url title cs = Link u t c \<longrightarrow>
     (\<exists>name. name \<noteq> ''mention'' \<and> name \<noteq> ''mentions'' \<and>
        (c = [Strong [Text (CHR ''@'' # name)]] \<or> c = [Text (CHR ''@'' # name)]))"
    unfolding P_def .
  from this [rule_format, OF refl] show ?thesis .
qed

lemma denied_text_example:
  "list_all (\<lambda>i. case ms True mentionRegex ''@mention'' (i, []) of
                     [] \<Rightarrow> i \<noteq> 0
                   | st # _ \<Rightarrow> i = 0 \<and> st = (8, [(1, ''mention'')]))
     [0 ..< Suc (length ''@mention'')]"
  by code_simp

lemma denied_text_matches:
  assumes "exec True mentionRegex ''@mention'' li = Some m"
  shows "m_index m = 0 \<and> m_end m = 8 \<and> group m 1 = Some ''mention''"
proof -
  from exec_Some [OF assms] obtain rest where
    i: "m_index m \<le> length ''@mention''"
    and r: "ms True mentionRegex ''@mention'' (m_index m, []) = (m_end m, m_caps m) # rest"
    by blast
  from i have "m_index m \<in> set [0 ..< Suc (length ''@mention'')]"
    by (simp del: upt_Suc)
  with denied_text_example
  have "case ms True mentionRegex ''@mention'' (m_index m, []) of
          [] \<Rightarrow> m_index m \<noteq> 0
        | st # _ \<Rightarrow> m_index m = 0 \<and> st = (8, [(1, ''mention'')])"
    unfolding list_all_iff by (rule bspec)
  with r show ?thesis
    by (simp add: group_def)
qed

lemma denied_paragraph_example:
  "list_all (\<lambda>i. case ms True mentionRegex ''@mention and @mentions'' (i, []) of
                     [] \<Rightarrow> True
                   | st # _ \<Rightarrow> map_of (snd st) 1 = Some ''mention'' \<or>
                               map_of (snd st) 1 = Some ''mentions'')
     [0 ..< Suc (length ''@mention and @mentions'')]"
  by code_simp

lemma denied_paragraph_matches:
  assumes "exec True mentionRegex ''@mention and @mentions'' li = Some m"
  shows "group m 1 = Some ''mention'' \<or> group m 1 = Some ''mentions''"
proof -
  from exec_Some [OF assms] obtain rest where
    i: "m_index m \<le> length ''@mention and @mentions''"
    and r: "ms True mentionRegex ''@mention and @mentions'' (m_index m, []) = (m_end m, m_caps m) # rest"
    by blast
  from i have "m_index m \<in> set [0 ..< Suc (length ''@mention and @mentions'')]"
    by (simp del: upt_Suc)
  with denied_paragraph_example
  have "case ms True mentionRegex ''@mention and @mentions'' (m_index m, []) of
          [] \<Rightarrow> True
        | st # _ \<Rightarrow> map_of (snd st) 1 = Some ''mention'' \<or> map_of (snd st) 1 = Some ''mentions''"
    unfolding list_all_iff by (rule bspec)
  with r show ?thesis
    by (simp add: group_def)
qed

lemma denied_paragraph_references:
  "exec True referenceRegex ''@mention and @mentions'' 0 = None"
  by code_simp

lemma denied_scan_example:
  "handler (mentionPair \<lparr>repository = None, mentionStrong = None,
                          buildUrlOpt = Some (\<lambda>this vals dflt. Some ''https://example.com/blog'')\<rparr>)
     ''@mention and @tivie'' =
   Inr [Text ''@mention and '', Link ''https://example.com/blog'' None [Strong [Text ''@tivie'']]]"
  by code_simp

text \<open>
  C5. A mention whose captured user name is \<open>mention\<close> or \<open>mentions\<close> is rejected by
  \<open>replaceMention\<close> whatever the options are, and so whatever a \<open>buildUrl\<close> hook would
  return for it. In the scan of a text, in any state that the scan can be in, such a
  match adds no node: the scan goes on behind it as before it, and the text from the
  start of the current run to the end of the match, at least, is in one text node of
  the result. No text has, after the scan for mentions, a link that shows \<open>@mention\<close>
  or \<open>@mentions\<close>; and a text in which every match is one of the two stays the one text
  node that it was.
\<close>

theorem denylist_law:
  assumes "name = ''mention'' \<or> name = ''mentions''"
  shows
   "replaceMention options v (Some name) match = Inr None \<and>
    (exec True mentionRegex val lastIndex = Some m \<and> group m 1 = Some name \<and>
     start \<le> lastIndex \<and> (change \<or> start = 0)
       \<longrightarrow> handler_loop True mentionRegex (\<lambda>s0 g. replaceMention options s0 (g 1))
               val start lastIndex nodes change =
             handler_loop True mentionRegex (\<lambda>s0 g. replaceMention options s0 (g 1))
               val start (m_end m) nodes change \<and>
           (\<exists>ns b. handler_loop True mentionRegex (\<lambda>s0 g. replaceMention options s0 (g 1))
                      val start lastIndex nodes change = Inr ns \<and>
                    m_end m \<le> b \<and> b \<le> length val \<and> Text (slice val start b) \<in> set ns)) \<and>
    (handler (mentionPair options) val = Inr ns
       \<longrightarrow> Link url title [Strong [Text (CHR ''@'' # name)]] \<notin> set ns \<and>
           Link url title [Text (CHR ''@'' # name)] \<notin> set ns) \<and>
    ((\<forall>li m. exec True mentionRegex val li = Some m \<longrightarrow>
         group m 1 = Some ''mention'' \<or> group m 1 = Some ''mentions'')
       \<longrightarrow> handler (mentionPair options) val = Inr [Text val]) \<and>
    remarkGithub options
      (Other ''root'' None [Other ''paragraph'' None [Text ''@mention and @mentions'']]) =
      Inr (Other ''root'' None [Other ''paragraph'' None [Text ''@mention and @mentions'']])"
proof -
  let ?replace = "\<lambda>s0 g. replaceMention options s0 (g (1::nat))"
  have r: "replaceMention options v (Some name) match = Inr None" for v match
    using assms by (auto simp: replaceMention_def denyMention_def)
  have s: "handler_loop True mentionRegex ?replace val start lastIndex nodes change =
             handler_loop True mentionRegex ?replace val start (m_end m) nodes change \<and>
           (\<exists>ns b. handler_loop True mentionRegex ?replace val start lastIndex nodes change = Inr ns \<and>
                    m_end m \<le> b \<and> b \<le> length val \<and> Text (slice val start b) \<in> set ns)"
    if m: "exec True mentionRegex val lastIndex = Some m" and g: "group m 1 = Some name"
      and st: "start \<le> lastIndex" "change \<or> start = 0"
  proof -
    from g have rej: "?replace (slice val (m_index m) (m_end m)) (group m)
        \<lparr>input = val, index = m_index m\<rparr> = Inr None"
      by (simp add: r)
    note e = mentionRegex_match(1) [OF m]
    from mention_loop_returns obtain ns where
      ns: "handler_loop True mentionRegex ?replace val start lastIndex nodes change = Inr ns"
      by blast
    from rejected_span_kept [where replace = ?replace, OF m rej e st ns] ns
    have "\<exists>ns b. handler_loop True mentionRegex ?replace val start lastIndex nodes change = Inr ns \<and>
                    m_end m \<le> b \<and> b \<le> length val \<and> Text (slice val start b) \<in> set ns"
      by blast
    with handler_loop_rejected [where replace = ?replace, OF m rej e] show ?thesis
      by (intro conjI)
  qed
  have l: "Link url title [Strong [Text (CHR ''@'' # name)]] \<notin> set ns \<and>
           Link url title [Text (CHR ''@'' # name)] \<notin> set ns"
    if h: "handler (mentionPair options) val = Inr ns"
    using mention_scan_links [OF h, of url title] assms by auto
  have a: "handler (mentionPair options) val = Inr [Text val]"
    if d: "\<forall>li m. exec True mentionRegex val li = Some m \<longrightarrow>
         group m 1 = Some ''mention'' \<or> group m 1 = Some ''mentions''"
    for val
  proof -
    have "handler_loop True mentionRegex ?replace val 0 0 [] False =
            Inr (if False
                 then [] @ (if 0 < length val then [Text (slice val 0 (length val))] else [])
                 else [Text val])"
    proof (rule handler_loop_all_rejected [where replace = ?replace])
      fix m li
      assume m: "exec True mentionRegex val li = Some m"
      with d have "group m 1 = Some ''mention'' \<or> group m 1 = Some ''mentions''"
        by blast
      then have "replaceMention options (slice val (m_index m) (m_end m)) (group m 1)
                   \<lparr>input = val, index = m_index m\<rparr> = Inr None"
        by (auto simp: replaceMention_def denyMention_def)
      with mentionRegex_match(1) [OF m]
      show "m_index m < m_end m \<and>
        ?replace (slice val (m_index m) (m_end m)) (group m) \<lparr>input = val, index = m_index m\<rparr> = Inr None"
        by simp
    qed
    then show ?thesis
      by (simp add: handler_def mentionPair_def)
  qed
  have t: "remarkGithub options
      (Other ''root'' None [Other ''paragraph'' None [Text ''@mention and @mentions'']]) =
      Inr (Other ''root'' None [Other ''paragraph'' None [Text ''@mention and @mentions'']])"
  proof -
    have "handler (referencePair options) ''@mention and @mentions'' = Inr [Text ''@mention and @mentions'']"
      unfolding handler_def referencePair_def prod.case
      by (simp only: handler_loop_done [OF denied_paragraph_references] if_False)
    moreover have "handler (mentionPair options) ''@mention and @mentions'' = Inr [Text ''@mention and @mentions'']"
      by (rule a) (use denied_paragraph_matches in blast)
    ultimately show ?thesis
      by (simp add: remarkGithub_def scanText_def replaceTree_def)
  qed
  from r s l a t show ?thesis
    by blast
qed

theorem denylist_law_witness:
  "replaceMention \<lparr>repository = None, mentionStrong = None,
                   buildUrlOpt = Some (\<lambda>this vals dflt. Some ''https://example.com/blog'')\<rparr>
     ''@mention'' (Some ''mention'') \<lparr>input = ''see @mention'', index = 4\<rparr> = Inr None \<and>
   handler (mentionPair \<lparr>repository = None, mentionStrong = None,
                          buildUrlOpt = Some (\<lambda>this vals dflt. Some ''https://example.com/blog'')\<rparr>)
     ''@mention'' = Inr [Text ''@mention''] \<and>
   (\<exists>ns b. handler_loop True mentionRegex
              (\<lambda>s0 g. replaceMention \<lparr>repository = None, mentionStrong = None,
                   buildUrlOpt = Some (\<lambda>this vals dflt. Some ''https://example.com/blog'')\<rparr> s0 (g 1))
              ''@mention'' 0 0 [] False = Inr ns \<and>
            8 \<le> b \<and> b \<le> length ''@mention'' \<and> Text (slice ''@mention'' 0 b) \<in> set ns) \<and>
   Link ''https://example.com/blog'' None [Strong [Text ''@mention'']] \<notin>
     set [Text ''@mention and '', Link ''https://example.com/blog'' None [Strong [Text ''@tivie'']]] \<and>
   remarkGithub \<lparr>repository = None, mentionStrong = None,
                  buildUrlOpt = Some (\<lambda>this vals dflt. Some ''https://example.com/blog'')\<rparr>
      (Other ''root'' None [Other ''paragraph'' None [Text ''@mention and @mentions'']]) =
      Inr (Other ''root'' None [Other ''paragraph'' None [Text ''@mention and @mentions'']])"
proof -
  let ?o = "\<lparr>repository = None, mentionStrong = None,
             buildUrlOpt = Some (\<lambda>this vals dflt. Some ''https://example.com/blog'')\<rparr>"
  let ?m = "\<lparr>m_index = 0, m_end = 8, m_caps = [(1, ''mention'')]\<rparr>"
  have n: "''mention'' = ''mention'' \<or> ''mention'' = ''mentions''"
    by simp
  have e: "exec True mentionRegex ''@mention'' 0 = Some ?m"
    by code_simp
  have h: "exec True mentionRegex ''@mention'' 0 = Some ?m \<and> group ?m 1 = Some ''mention'' \<and>
     (0::nat) \<le> 0 \<and> (False \<or> (0::nat) = 0)"
    using e by (simp add: group_def)
  have a: "\<forall>li m. exec True mentionRegex ''@mention'' li = Some m \<longrightarrow>
         group m 1 = Some ''mention'' \<or> group m 1 = Some ''mentions''"
    using denied_text_matches by blast
  have w1: "replaceMention ?o ''@mention'' (Some ''mention'') \<lparr>input = ''see @mention'', index = 4\<rparr> = Inr None"
    by (rule denylist_law [where options = ?o, OF n, THEN conjunct1])
  have w2: "handler (mentionPair ?o) ''@mention'' = Inr [Text ''@mention'']"
    by (rule denylist_law [where options = ?o and val = "''@mention''", OF n,
          THEN conjunct2, THEN conjunct2, THEN conjunct2, THEN conjunct1, THEN mp, OF a])
  from denylist_law [where options = ?o and val = "''@mention''" and lastIndex = 0 and m = ?m
      and start = 0 and change = False and nodes = "[]", OF n, THEN conjunct2, THEN conjunct1, THEN mp, OF h,
      THEN conjunct2]
  have w3: "\<exists>ns b. handler_loop True mentionRegex (\<lambda>s0 g. replaceMention ?o s0 (g 1))
              ''@mention'' 0 0 [] False = Inr ns \<and>
            8 \<le> b \<and> b \<le> length ''@mention'' \<and> Text (slice ''@mention'' 0 b) \<in> set ns"
    by (simp only: rmatch.select_convs)
  have w4: "Link ''https://example.com/blog'' None [Strong [Text ''@mention'']] \<notin>
     set [Text ''@mention and '', Link ''https://example.com/blog'' None [Strong [Text ''@tivie'']]]"
    by (rule denylist_law [where options = ?o and val = "''@mention and @tivie''", OF n,
          THEN conjunct2, THEN conjunct2, THEN conjunct1, THEN mp, OF denied_scan_example, THEN conjunct1])
  have w5: "remarkGithub ?o
      (Other ''root'' None [Other ''paragraph'' None [Text ''@mention and @mentions'']]) =
      Inr (Other ''root'' None [Other ''paragraph'' None [Text ''@mention and @mentions'']])"
    by (rule denylist_law [where options = ?o, OF n,
          THEN conjunct2, THEN conjunct2, THEN conjunct2, THEN conjunct2])
  from w1 w2 w3 w4 w5 show ?thesis
    by (intro conjI)
qed

section \<open>A hook that returns false\<close>

lemma app_scenario:
  "remarkGithub \<lparr>repository = None, mentionStrong = None, buildUrlOpt = Some appBuildUrl\<rparr>
     (Other ''root'' None [Other ''paragraph'' None [Text ''@tivie a/b#1'']]) =
   Inr (Other ''root'' None [Other ''paragraph'' None
          [Text ''@tivie '', Link ''https://github.com/a/b/issues/1'' None [Text ''#1'']]])"
  by code_simp

lemma suppressed_mention_example:
  "exec True mentionRegex ''@tivie a/b#1'' 0 = Some \<lparr>m_index = 0, m_end = 6, m_caps = [(1, ''tivie'')]\<rparr>"
  by code_simp

lemma linked_issue_example:
  "exec True referenceRegex ''@tivie a/b#1'' 0 =
     Some \<lparr>m_index = 7, m_end = 12, m_caps = [(3, ''1''), (2, ''b''), (1, ''a'')]\<rparr>"
  by code_simp

lemma suppressed_commit_example:
  "exec True referenceRegex ''a@1234567#1'' 0 =
     Some \<lparr>m_index = 0, m_end = 9, m_caps = [(4, ''1234567''), (1, ''a'')]\<rparr>"
  by code_simp

lemma suppressed_commit_scan:
  "handler (referencePair \<lparr>repository = None, mentionStrong = None,
       buildUrlOpt = Some (\<lambda>this vals dflt.
         case vals of CommitValues u p h \<Rightarrow> None | _ \<Rightarrow> Some (dflt vals))\<rparr>)
     ''a@1234567#1'' = Inr [Text ''a@1234567#1'']"
  by code_simp

text \<open>
  C8, as the claim states it, fails for a hook that returns the empty string: the
  mention is validated and the hook returns a string, and no link is produced.
\<close>

theorem builder_suppression_counterexample:
  "\<not> test False mentionBefore (charAt ''@tivie'' (int 0 - 1)) \<and>
   \<not> test False mentionAfter (charAt ''@tivie'' (int 0 + int (length ''@tivie''))) \<and>
   ''tivie'' \<notin> denyMention \<and>
   emptyBuildUrl (receiver \<lparr>repository = None, mentionStrong = None, buildUrlOpt = Some emptyBuildUrl\<rparr>)
     (MentionValues (Some ''tivie'')) defaultBuildUrl = Some [] \<and>
   replaceMention \<lparr>repository = None, mentionStrong = None, buildUrlOpt = Some emptyBuildUrl\<rparr>
     ''@tivie'' (Some ''tivie'') \<lparr>input = ''@tivie'', index = 0\<rparr> = Inr None"
  by (simp add: charAt_def mentionBefore_def mentionAfter_def test_Cls_Nil buildUrl_def
      emptyBuildUrl_def replaceMention_def denyMention_def)

text \<open>
  C8, amended. When the \<open>buildUrl\<close> hook returns \<open>false\<close> for the value of a match,
  the replace function returns \<open>false\<close>. In the scan of a text, in any state that the
  scan can be in, such a match of \<open>mentionRegex\<close> or of \<open>referenceRegex\<close> adds no node:
  the scan goes on behind the match as before it, and the text from the start of the
  current run to the end of the match, at least, is in one text node of the result;
  a text all of whose mentions are suppressed stays the one text node that it was.
  A validated match for which the hook returns a string that is not empty is replaced
  by a link whose URL is that string, and the link is a node of the result of the
  scan. Without a hook the URL is the one of \<open>defaultBuildUrl\<close>, which is never empty.
\<close>

theorem builder_suppression:
  assumes "buildUrlOpt options = Some hook"
  shows
   "(hook (receiver options) (MentionValues username) defaultBuildUrl = None
       \<longrightarrow> replaceMention options val username match = Inr None) \<and>
    (hook (receiver options) (IssueValues usr proj (c # cs)) defaultBuildUrl = None
       \<longrightarrow> replaceReference options val usr proj (Some (c # cs)) hash match = Inr None) \<and>
    (hook (receiver options) (CommitValues usr proj hash) defaultBuildUrl = None
       \<longrightarrow> replaceReference options val usr proj None hash match = Inr None) \<and>
    ((\<forall>u. hook (receiver options) (MentionValues u) defaultBuildUrl = None)
       \<longrightarrow> handler (mentionPair options) val = Inr [Text val]) \<and>
    (exec True mentionRegex val lastIndex = Some m \<and>
     hook (receiver options) (MentionValues (group m 1)) defaultBuildUrl = None \<and>
     start \<le> lastIndex \<and> (change \<or> start = 0)
       \<longrightarrow> handler_loop True mentionRegex (\<lambda>s0 g. replaceMention options s0 (g 1))
               val start lastIndex nodes change =
             handler_loop True mentionRegex (\<lambda>s0 g. replaceMention options s0 (g 1))
               val start (m_end m) nodes change \<and>
           (\<exists>ns b. handler_loop True mentionRegex (\<lambda>s0 g. replaceMention options s0 (g 1))
                      val start lastIndex nodes change = Inr ns \<and>
                    m_end m \<le> b \<and> b \<le> length val \<and> Text (slice val start b) \<in> set ns)) \<and>
    (exec True referenceRegex val lastIndex = Some m \<and>
     ((\<exists>no. group m 3 = Some no \<and>
            hook (receiver options) (IssueValues (group m 1) (group m 2) no) defaultBuildUrl = None) \<or>
      (group m 3 = None \<and>
       hook (receiver options) (CommitValues (group m 1) (group m 2) (group m 4)) defaultBuildUrl = None)) \<and>
     start \<le> lastIndex \<and> (change \<or> start = 0)
       \<longrightarrow> handler_loop True referenceRegex (\<lambda>s0 g. replaceReference options s0 (g 1) (g 2) (g 3) (g 4))
               val start lastIndex nodes change =
             handler_loop True referenceRegex (\<lambda>s0 g. replaceReference options s0 (g 1) (g 2) (g 3) (g 4))
               val start (m_end m) nodes change \<and>
           (\<exists>ns b. handler_loop True referenceRegex
                      (\<lambda>s0 g. replaceReference options s0 (g 1) (g 2) (g 3) (g 4))
                      val start lastIndex nodes change = Inr ns \<and>
                    m_end m \<le> b \<and> b \<le> length val \<and> Text (slice val start b) \<in> set ns)) \<and>
    (\<not> test False mentionBefore (charAt (input match) (int (index match) - 1)) \<and>
     \<not> test False mentionAfter (charAt (input match) (int (index match) + int (length val))) \<and>
     (\<forall>name. username = Some name \<longrightarrow> name \<notin> denyMention) \<and>
     hook (receiver options) (MentionValues username) defaultBuildUrl = Some url \<and> url \<noteq> []
       \<longrightarrow> replaceMention options val username match =
             Inr (Some (Link url None
               [if mentionStrong options \<noteq> Some False then Strong [Text val] else Text val]))) \<and>
    (\<not> test False referenceBefore (charAt (input match) (int (index match) - 1)) \<and>
     \<not> test False referenceAfter (charAt (input match) (int (index match) + int (length val))) \<and>
     hook (receiver options) (IssueValues usr proj (c # cs)) defaultBuildUrl = Some url \<and> url \<noteq> []
       \<longrightarrow> replaceReference options val usr proj (Some (c # cs)) hash match =
             Inr (Some (Link url None [Text (''#'' @ c # cs)]))) \<and>
    (\<not> test False referenceBefore (charAt (input match) (int (index match) - 1)) \<and>
     \<not> test False referenceAfter (charAt (input match) (int (index match) + int (length val))) \<and>
     hook (receiver options) (CommitValues usr proj (Some h)) defaultBuildUrl = Some url \<and> url \<noteq> []
       \<longrightarrow> replaceReference options val usr proj None (Some h) match =
             Inr (Some (Link url None [Text ''@'', InlineCode (abbr h)]))) \<and>
    (exec True mentionRegex val lastIndex = Some m \<and>
     replaceMention options (slice val (m_index m) (m_end m)) (group m 1)
       \<lparr>input = val, index = m_index m\<rparr> = Inr (Some n)
       \<longrightarrow> (\<exists>ns. handler_loop True mentionRegex (\<lambda>s0 g. replaceMention options s0 (g 1))
                    val start lastIndex nodes change = Inr ns \<and> n \<in> set ns)) \<and>
    (exec True referenceRegex val lastIndex = Some m \<and>
     replaceReference options (slice val (m_index m) (m_end m)) (group m 1) (group m 2) (group m 3)
       (group m 4) \<lparr>input = val, index = m_index m\<rparr> = Inr (Some n)
       \<longrightarrow> (\<exists>ns. handler_loop True referenceRegex
                    (\<lambda>s0 g. replaceReference options s0 (g 1) (g 2) (g 3) (g 4))
                    val start lastIndex nodes change = Inr ns \<and> n \<in> set ns)) \<and>
    buildUrl (options\<lparr>buildUrlOpt := None\<rparr>) vals = Some (defaultBuildUrl vals) \<and>
    defaultBuildUrl vals \<noteq> []"
proof -
  let ?mention = "\<lambda>s0 g. replaceMention options s0 (g (1::nat))"
  let ?reference = "\<lambda>s0 g. replaceReference options s0 (g 1) (g 2) (g 3) (g (4::nat))"
  have b: "buildUrl options v = hook (receiver options) v defaultBuildUrl" for v
    using assms by (simp add: buildUrl_def)
  have c1: "hook (receiver options) (MentionValues username) defaultBuildUrl = None
       \<longrightarrow> replaceMention options val username match = Inr None"
    by (simp add: b [symmetric] replaceMention_suppressed)
  have c2: "hook (receiver options) (IssueValues usr proj (c # cs)) defaultBuildUrl = None
       \<longrightarrow> replaceReference options val usr proj (Some (c # cs)) hash match = Inr None"
    by (simp add: b [symmetric] replaceReference_issue_suppressed)
  have c3: "hook (receiver options) (CommitValues usr proj hash) defaultBuildUrl = None
       \<longrightarrow> replaceReference options val usr proj None hash match = Inr None"
    by (simp add: b [symmetric] replaceReference_commit_suppressed)
  have c4: "(\<forall>u. hook (receiver options) (MentionValues u) defaultBuildUrl = None)
       \<longrightarrow> handler (mentionPair options) val = Inr [Text val]"
  proof
    assume a: "\<forall>u. hook (receiver options) (MentionValues u) defaultBuildUrl = None"
    have "handler_loop True mentionRegex ?mention val 0 0 [] False =
            Inr (if False
                 then [] @ (if 0 < length val then [Text (slice val 0 (length val))] else [])
                 else [Text val])"
    proof (rule handler_loop_all_rejected [where replace = ?mention])
      fix m li
      assume m: "exec True mentionRegex val li = Some m"
      from a have "buildUrl options (MentionValues (group m 1)) = None"
        by (simp add: b)
      then have "replaceMention options (slice val (m_index m) (m_end m)) (group m 1)
                   \<lparr>input = val, index = m_index m\<rparr> = Inr None"
        by (intro replaceMention_suppressed disjI1)
      with mentionRegex_match(1) [OF m]
      show "m_index m < m_end m \<and>
        ?mention (slice val (m_index m) (m_end m)) (group m) \<lparr>input = val, index = m_index m\<rparr> = Inr None"
        by simp
    qed
    then show "handler (mentionPair options) val = Inr [Text val]"
      by (simp add: handler_def mentionPair_def)
  qed
  have c5: "exec True mentionRegex val lastIndex = Some m \<and>
     hook (receiver options) (MentionValues (group m 1)) defaultBuildUrl = None \<and>
     start \<le> lastIndex \<and> (change \<or> start = 0)
       \<longrightarrow> handler_loop True mentionRegex ?mention val start lastIndex nodes change =
             handler_loop True mentionRegex ?mention val start (m_end m) nodes change \<and>
           (\<exists>ns b. handler_loop True mentionRegex ?mention val start lastIndex nodes change = Inr ns \<and>
                    m_end m \<le> b \<and> b \<le> length val \<and> Text (slice val start b) \<in> set ns)"
  proof (intro impI, elim conjE)
    assume m: "exec True mentionRegex val lastIndex = Some m"
      and h: "hook (receiver options) (MentionValues (group m 1)) defaultBuildUrl = None"
      and st: "start \<le> lastIndex" "change \<or> start = 0"
    from h have "buildUrl options (MentionValues (group m 1)) = None"
      by (simp add: b)
    then have "replaceMention options (slice val (m_index m) (m_end m)) (group m 1)
                   \<lparr>input = val, index = m_index m\<rparr> = Inr None"
      by (intro replaceMention_suppressed disjI1)
    then have rej: "?mention (slice val (m_index m) (m_end m)) (group m)
        \<lparr>input = val, index = m_index m\<rparr> = Inr None"
      by simp
    note e = mentionRegex_match(1) [OF m]
    from mention_loop_returns obtain ns where
      ns: "handler_loop True mentionRegex ?mention val start lastIndex nodes change = Inr ns"
      by blast
    from rejected_span_kept [where replace = ?mention, OF m rej e st ns] ns
    have "\<exists>ns b. handler_loop True mentionRegex ?mention val start lastIndex nodes change = Inr ns \<and>
                    m_end m \<le> b \<and> b \<le> length val \<and> Text (slice val start b) \<in> set ns"
      by blast
    with handler_loop_rejected [where replace = ?mention, OF m rej e]
    show "handler_loop True mentionRegex ?mention val start lastIndex nodes change =
             handler_loop True mentionRegex ?mention val start (m_end m) nodes change \<and>
           (\<exists>ns b. handler_loop True mentionRegex ?mention val start lastIndex nodes change = Inr ns \<and>
                    m_end m \<le> b \<and> b \<le> length val \<and> Text (slice val start b) \<in> set ns)"
      by (intro conjI)
  qed
  have c6: "exec True referenceRegex val lastIndex = Some m \<and>
     ((\<exists>no. group m 3 = Some no \<and>
            hook (receiver options) (IssueValues (group m 1) (group m 2) no) defaultBuildUrl = None) \<or>
      (group m 3 = None \<and>
       hook (receiver options) (CommitValues (group m 1) (group m 2) (group m 4)) defaultBuildUrl = None)) \<and>
     start \<le> lastIndex \<and> (change \<or> start = 0)
       \<longrightarrow> handler_loop True referenceRegex ?reference val start lastIndex nodes change =
             handler_loop True referenceRegex ?reference val start (m_end m) nodes change \<and>
           (\<exists>ns b. handler_loop True referenceRegex ?reference val start lastIndex nodes change = Inr ns \<and>
                    m_end m \<le> b \<and> b \<le> length val \<and> Text (slice val start b) \<in> set ns)"
  proof (intro impI, elim conjE)
    assume m: "exec True referenceRegex val lastIndex = Some m"
      and h: "(\<exists>no. group m 3 = Some no \<and>
            hook (receiver options) (IssueValues (group m 1) (group m 2) no) defaultBuildUrl = None) \<or>
        (group m 3 = None \<and>
         hook (receiver options) (CommitValues (group m 1) (group m 2) (group m 4)) defaultBuildUrl = None)"
      and st: "start \<le> lastIndex" "change \<or> start = 0"
    from h have "replaceReference options (slice val (m_index m) (m_end m)) (group m 1) (group m 2)
         (group m 3) (group m 4) \<lparr>input = val, index = m_index m\<rparr> = Inr None"
    proof
      assume "\<exists>no. group m 3 = Some no \<and>
            hook (receiver options) (IssueValues (group m 1) (group m 2) no) defaultBuildUrl = None"
      then obtain no where no: "group m 3 = Some no"
        "hook (receiver options) (IssueValues (group m 1) (group m 2) no) defaultBuildUrl = None"
        by blast
      from referenceRegex_match(2) [OF m] no(1) obtain d ds where d: "no = d # ds"
        by auto
      from no(2) have "buildUrl options (IssueValues (group m 1) (group m 2) (d # ds)) = None"
        by (simp add: b d)
      then have "replaceReference options (slice val (m_index m) (m_end m)) (group m 1) (group m 2)
         (Some (d # ds)) (group m 4) \<lparr>input = val, index = m_index m\<rparr> = Inr None"
        by (intro replaceReference_issue_suppressed disjI1)
      with no(1) d show ?thesis
        by simp
    next
      assume a: "group m 3 = None \<and>
         hook (receiver options) (CommitValues (group m 1) (group m 2) (group m 4)) defaultBuildUrl = None"
      then have "buildUrl options (CommitValues (group m 1) (group m 2) (group m 4)) = None"
        by (simp add: b)
      then have "replaceReference options (slice val (m_index m) (m_end m)) (group m 1) (group m 2)
         None (group m 4) \<lparr>input = val, index = m_index m\<rparr> = Inr None"
        by (intro replaceReference_commit_suppressed disjI1)
      with a show ?thesis
        by simp
    qed
    then have rej: "?reference (slice val (m_index m) (m_end m)) (group m)
        \<lparr>input = val, index = m_index m\<rparr> = Inr None"
      by simp
    note e = referenceRegex_match(1) [OF m]
    from reference_loop_returns obtain ns where
      ns: "handler_loop True referenceRegex ?reference val start lastIndex nodes change = Inr ns"
      by blast
    from rejected_span_kept [where replace = ?reference, OF m rej e st ns] ns
    have "\<exists>ns b. handler_loop True referenceRegex ?reference val start lastIndex nodes change = Inr ns \<and>
                    m_end m \<le> b \<and> b \<le> length val \<and> Text (slice val start b) \<in> set ns"
      by blast
    with handler_loop_rejected [where replace = ?reference, OF m rej e]
    show "handler_loop True referenceRegex ?reference val start lastIndex nodes change =
             handler_loop True referenceRegex ?reference val start (m_end m) nodes change \<and>
           (\<exists>ns b. handler_loop True referenceRegex ?reference val start lastIndex nodes change = Inr ns \<and>
                    m_end m \<le> b \<and> b \<le> length val \<and> Text (slice val start b) \<in> set ns)"
      by (intro conjI)
  qed
  have c7: "\<not> test False mentionBefore (charAt (input match) (int (index match) - 1)) \<and>
     \<not> test False mentionAfter (charAt (input match) (int (index match) + int (length val))) \<and>
     (\<forall>name. username = Some name \<longrightarrow> name \<notin> denyMention) \<and>
     hook (receiver options) (MentionValues username) defaultBuildUrl = Some url \<and> url \<noteq> []
       \<longrightarrow> replaceMention options val username match =
             Inr (Some (Link url None
               [if mentionStrong options \<noteq> Some False then Strong [Text val] else Text val]))"
    by (simp add: b [symmetric] replaceMention_accepts)
  have c8: "\<not> test False referenceBefore (charAt (input match) (int (index match) - 1)) \<and>
     \<not> test False referenceAfter (charAt (input match) (int (index match) + int (length val))) \<and>
     hook (receiver options) (IssueValues usr proj (c # cs)) defaultBuildUrl = Some url \<and> url \<noteq> []
       \<longrightarrow> replaceReference options val usr proj (Some (c # cs)) hash match =
             Inr (Some (Link url None [Text (''#'' @ c # cs)]))"
    by (simp add: b [symmetric] replaceReference_issue)
  have c9: "\<not> test False referenceBefore (charAt (input match) (int (index match) - 1)) \<and>
     \<not> test False referenceAfter (charAt (input match) (int (index match) + int (length val))) \<and>
     hook (receiver options) (CommitValues usr proj (Some h)) defaultBuildUrl = Some url \<and> url \<noteq> []
       \<longrightarrow> replaceReference options val usr proj None (Some h) match =
             Inr (Some (Link url None [Text ''@'', InlineCode (abbr h)]))"
    by (simp add: b [symmetric] replaceReference_commit)
  have c10: "exec True mentionRegex val lastIndex = Some m \<and>
     replaceMention options (slice val (m_index m) (m_end m)) (group m 1)
       \<lparr>input = val, index = m_index m\<rparr> = Inr (Some n)
       \<longrightarrow> (\<exists>ns. handler_loop True mentionRegex ?mention val start lastIndex nodes change = Inr ns \<and>
                 n \<in> set ns)"
  proof (intro impI, elim conjE)
    assume m: "exec True mentionRegex val lastIndex = Some m"
      and "replaceMention options (slice val (m_index m) (m_end m)) (group m 1)
             \<lparr>input = val, index = m_index m\<rparr> = Inr (Some n)"
    then have acc: "?mention (slice val (m_index m) (m_end m)) (group m)
        \<lparr>input = val, index = m_index m\<rparr> = Inr (Some n)"
      by simp
    from mention_loop_returns obtain ns where
      ns: "handler_loop True mentionRegex ?mention val start lastIndex nodes change = Inr ns"
      by blast
    from accepted_node_kept [where replace = ?mention, OF m acc mentionRegex_match(1) [OF m] ns] ns
    show "\<exists>ns. handler_loop True mentionRegex ?mention val start lastIndex nodes change = Inr ns \<and>
                 n \<in> set ns"
      by blast
  qed
  have c11: "exec True referenceRegex val lastIndex = Some m \<and>
     replaceReference options (slice val (m_index m) (m_end m)) (group m 1) (group m 2) (group m 3)
       (group m 4) \<lparr>input = val, index = m_index m\<rparr> = Inr (Some n)
       \<longrightarrow> (\<exists>ns. handler_loop True referenceRegex ?reference val start lastIndex nodes change = Inr ns \<and>
                 n \<in> set ns)"
  proof (intro impI, elim conjE)
    assume m: "exec True referenceRegex val lastIndex = Some m"
      and "replaceReference options (slice val (m_index m) (m_end m)) (group m 1) (group m 2) (group m 3)
       (group m 4) \<lparr>input = val, index = m_index m\<rparr> = Inr (Some n)"
    then have acc: "?reference (slice val (m_index m) (m_end m)) (group m)
        \<lparr>input = val, index = m_index m\<rparr> = Inr (Some n)"
      by simp
    from reference_loop_returns obtain ns where
      ns: "handler_loop True referenceRegex ?reference val start lastIndex nodes change = Inr ns"
      by blast
    from accepted_node_kept [where replace = ?reference, OF m acc referenceRegex_match(1) [OF m] ns] ns
    show "\<exists>ns. handler_loop True referenceRegex ?reference val start lastIndex nodes change = Inr ns \<and>
                 n \<in> set ns"
      by blast
  qed
  have c12: "buildUrl (options\<lparr>buildUrlOpt := None\<rparr>) vals = Some (defaultBuildUrl vals)"
    by (simp add: buildUrl_def)
  have c13: "defaultBuildUrl vals \<noteq> []"
    by (rule defaultBuildUrl_not_empty)
  from c1 c2 c3 c4 c5 c6 c7 c8 c9 c10 c11 c12 c13 show ?thesis
    by (intro conjI)
qed

theorem builder_suppression_witness:
  "replaceMention \<lparr>repository = None, mentionStrong = None, buildUrlOpt = Some appBuildUrl\<rparr>
     ''@tivie'' (Some ''tivie'') \<lparr>input = ''@tivie a/b#1'', index = 0\<rparr> = Inr None \<and>
   handler (mentionPair \<lparr>repository = None, mentionStrong = None, buildUrlOpt = Some appBuildUrl\<rparr>)
     ''@tivie a/b#1'' = Inr [Text ''@tivie a/b#1''] \<and>
   (\<exists>ns b. handler_loop True mentionRegex
       (\<lambda>s0 g. replaceMention \<lparr>repository = None, mentionStrong = None, buildUrlOpt = Some appBuildUrl\<rparr>
                  s0 (g 1))
       ''@tivie a/b#1'' 0 0 [] False = Inr ns \<and>
     6 \<le> b \<and> b \<le> length ''@tivie a/b#1'' \<and> Text (slice ''@tivie a/b#1'' 0 b) \<in> set ns) \<and>
   replaceReference \<lparr>repository = None, mentionStrong = None, buildUrlOpt = Some appBuildUrl\<rparr>
     ''a/b#1'' (Some ''a'') (Some ''b'') (Some ''1'') None \<lparr>input = ''@tivie a/b#1'', index = 7\<rparr> =
     Inr (Some (Link ''https://github.com/a/b/issues/1'' None [Text ''#1''])) \<and>
   (\<exists>ns. handler_loop True referenceRegex
       (\<lambda>s0 g. replaceReference \<lparr>repository = None, mentionStrong = None, buildUrlOpt = Some appBuildUrl\<rparr>
                  s0 (g 1) (g 2) (g 3) (g 4))
       ''@tivie a/b#1'' 0 0 [] False = Inr ns \<and>
     Link ''https://github.com/a/b/issues/1'' None [Text ''#1''] \<in> set ns) \<and>
   (\<exists>ns b. handler_loop True referenceRegex
       (\<lambda>s0 g. replaceReference \<lparr>repository = None, mentionStrong = None,
            buildUrlOpt = Some (\<lambda>this vals dflt.
              case vals of CommitValues u p h \<Rightarrow> None | _ \<Rightarrow> Some (dflt vals))\<rparr>
          s0 (g 1) (g 2) (g 3) (g 4))
       ''a@1234567#1'' 0 0 [] False = Inr ns \<and>
     9 \<le> b \<and> b \<le> length ''a@1234567#1'' \<and> Text (slice ''a@1234567#1'' 0 b) \<in> set ns)"
proof -
  let ?o = "\<lparr>repository = None, mentionStrong = None, buildUrlOpt = Some appBuildUrl\<rparr>"
  let ?h = "\<lambda>this vals dflt. case vals of CommitValues u p h \<Rightarrow> None | _ \<Rightarrow> Some (dflt vals)"
  let ?p = "\<lparr>repository = None, mentionStrong = None, buildUrlOpt = Some ?h\<rparr>"
  let ?m1 = "\<lparr>m_index = 0, m_end = 6, m_caps = [(1, ''tivie'')]\<rparr>"
  let ?m2 = "\<lparr>m_index = 7, m_end = 12, m_caps = [(3, ''1''), (2, ''b''), (1, ''a'')]\<rparr>"
  let ?m3 = "\<lparr>m_index = 0, m_end = 9, m_caps = [(4, ''1234567''), (1, ''a'')]\<rparr>"
  let ?l = "Link ''https://github.com/a/b/issues/1'' None [Text ''#1'']"
  have o: "buildUrlOpt ?o = Some appBuildUrl"
    by simp
  have p: "buildUrlOpt ?p = Some ?h"
    by simp
  have u: "\<forall>u. appBuildUrl (receiver ?o) (MentionValues u) defaultBuildUrl = None"
    by (simp add: appBuildUrl_def)
  have u1: "appBuildUrl (receiver ?o) (MentionValues (Some ''tivie'')) defaultBuildUrl = None"
    by (simp add: appBuildUrl_def)
  have w1: "replaceMention ?o ''@tivie'' (Some ''tivie'') \<lparr>input = ''@tivie a/b#1'', index = 0\<rparr> = Inr None"
    by (rule builder_suppression [OF o, THEN conjunct1, THEN mp, OF u1])
  have w2: "handler (mentionPair ?o) ''@tivie a/b#1'' = Inr [Text ''@tivie a/b#1'']"
    by (rule builder_suppression [OF o, THEN conjunct2, THEN conjunct2, THEN conjunct2, THEN conjunct1,
          THEN mp, OF u])
  have h3: "exec True mentionRegex ''@tivie a/b#1'' 0 = Some ?m1 \<and>
     appBuildUrl (receiver ?o) (MentionValues (group ?m1 1)) defaultBuildUrl = None \<and>
     (0::nat) \<le> 0 \<and> (False \<or> (0::nat) = 0)"
    using suppressed_mention_example by (simp add: appBuildUrl_def)
  from builder_suppression [where val = "''@tivie a/b#1''" and lastIndex = 0 and m = ?m1
      and start = 0 and change = False and nodes = "[]", OF o,
      THEN conjunct2, THEN conjunct2, THEN conjunct2, THEN conjunct2, THEN conjunct1, THEN mp, OF h3,
      THEN conjunct2]
  have w3: "\<exists>ns b. handler_loop True mentionRegex (\<lambda>s0 g. replaceMention ?o s0 (g 1))
       ''@tivie a/b#1'' 0 0 [] False = Inr ns \<and>
     6 \<le> b \<and> b \<le> length ''@tivie a/b#1'' \<and> Text (slice ''@tivie a/b#1'' 0 b) \<in> set ns"
    by (simp only: rmatch.select_convs)
  have h4: "\<not> test False referenceBefore (charAt (input \<lparr>input = ''@tivie a/b#1'', index = 7\<rparr>)
                 (int (index \<lparr>input = ''@tivie a/b#1'', index = 7\<rparr>) - 1)) \<and>
     \<not> test False referenceAfter (charAt (input \<lparr>input = ''@tivie a/b#1'', index = 7\<rparr>)
                 (int (index \<lparr>input = ''@tivie a/b#1'', index = 7\<rparr>) + int (length ''a/b#1''))) \<and>
     appBuildUrl (receiver ?o) (IssueValues (Some ''a'') (Some ''b'') (CHR ''1'' # [])) defaultBuildUrl =
       Some ''https://github.com/a/b/issues/1'' \<and>
     ''https://github.com/a/b/issues/1'' \<noteq> []"
    by (simp add: charAt_def referenceBefore_def referenceAfter_def test_Cls cls_match_def appBuildUrl_def)
  from builder_suppression [where match = "\<lparr>input = ''@tivie a/b#1'', index = 7\<rparr>"
      and val = "''a/b#1''" and usr = "Some ''a''" and proj = "Some ''b''" and c = "CHR ''1''" and cs = "[]"
      and hash = None and url = "''https://github.com/a/b/issues/1''", OF o,
      THEN conjunct2, THEN conjunct2, THEN conjunct2, THEN conjunct2, THEN conjunct2, THEN conjunct2,
      THEN conjunct2, THEN conjunct1, THEN mp, OF h4]
  have w4: "replaceReference ?o ''a/b#1'' (Some ''a'') (Some ''b'') (Some ''1'') None
     \<lparr>input = ''@tivie a/b#1'', index = 7\<rparr> = Inr (Some ?l)"
    by simp
  have h5: "exec True referenceRegex ''@tivie a/b#1'' 0 = Some ?m2 \<and>
     replaceReference ?o (slice ''@tivie a/b#1'' (m_index ?m2) (m_end ?m2)) (group ?m2 1) (group ?m2 2)
       (group ?m2 3) (group ?m2 4) \<lparr>input = ''@tivie a/b#1'', index = m_index ?m2\<rparr> = Inr (Some ?l)"
    using linked_issue_example w4 by (simp add: slice_def group_def)
  have w5: "\<exists>ns. handler_loop True referenceRegex (\<lambda>s0 g. replaceReference ?o s0 (g 1) (g 2) (g 3) (g 4))
       ''@tivie a/b#1'' 0 0 [] False = Inr ns \<and> ?l \<in> set ns"
    by (rule builder_suppression [where val = "''@tivie a/b#1''" and lastIndex = 0 and m = ?m2
          and start = 0 and change = False and nodes = "[]" and n = ?l, OF o,
          THEN conjunct2, THEN conjunct2, THEN conjunct2, THEN conjunct2, THEN conjunct2, THEN conjunct2,
          THEN conjunct2, THEN conjunct2, THEN conjunct2, THEN conjunct2, THEN conjunct1, THEN mp, OF h5])
  have h6: "exec True referenceRegex ''a@1234567#1'' 0 = Some ?m3 \<and>
     ((\<exists>no. group ?m3 3 = Some no \<and>
            ?h (receiver ?p) (IssueValues (group ?m3 1) (group ?m3 2) no) defaultBuildUrl = None) \<or>
      (group ?m3 3 = None \<and>
       ?h (receiver ?p) (CommitValues (group ?m3 1) (group ?m3 2) (group ?m3 4)) defaultBuildUrl = None)) \<and>
     (0::nat) \<le> 0 \<and> (False \<or> (0::nat) = 0)"
    using suppressed_commit_example by (simp add: group_def)
  from builder_suppression [where val = "''a@1234567#1''" and lastIndex = 0 and m = ?m3
      and start = 0 and change = False and nodes = "[]", OF p,
      THEN conjunct2, THEN conjunct2, THEN conjunct2, THEN conjunct2, THEN conjunct2, THEN conjunct1,
      THEN mp, OF h6, THEN conjunct2]
  have w6: "\<exists>ns b. handler_loop True referenceRegex (\<lambda>s0 g. replaceReference ?p s0 (g 1) (g 2) (g 3) (g 4))
       ''a@1234567#1'' 0 0 [] False = Inr ns \<and>
     9 \<le> b \<and> b \<le> length ''a@1234567#1'' \<and> Text (slice ''a@1234567#1'' 0 b) \<in> set ns"
    by (simp only: rmatch.select_convs)
  from w1 w2 w3 w4 w5 w6 show ?thesis
    by (intro conjI)
qed

section \<open>The option repository\<close>

lemma buildUrl_agree:
  assumes "buildUrlOpt o1 = buildUrlOpt o2"
    and "\<forall>hook vals. buildUrlOpt o1 = Some hook \<longrightarrow>
           hook (receiver o1) vals defaultBuildUrl = hook (receiver o2) vals defaultBuildUrl"
  shows "buildUrl o1 = buildUrl o2"
proof (rule ext)
  fix vals
  show "buildUrl o1 vals = buildUrl o2 vals"
  proof (cases "buildUrlOpt o1")
    case None
    with assms(1) show ?thesis
      by (simp add: buildUrl_def)
  next
    case (Some hook)
    with assms(2) have "hook (receiver o1) vals defaultBuildUrl = hook (receiver o2) vals defaultBuildUrl"
      by blast
    with Some assms(1) show ?thesis
      by (simp add: buildUrl_def)
  qed
qed

lemma replaceMention_agree:
  assumes "mentionStrong o1 = mentionStrong o2" and "buildUrl o1 = buildUrl o2"
  shows "replaceMention o1 = replaceMention o2"
  by (intro ext) (simp only: replaceMention_def assms)

lemma replaceReference_agree:
  assumes "buildUrl o1 = buildUrl o2"
  shows "replaceReference o1 = replaceReference o2"
  by (intro ext) (simp only: replaceReference_def assms)

text \<open>
  C9, as the claim states it, fails for a hook that reads the option: the program
  calls the hook as a method of the options, and a hook that builds its URL from
  \<open>this.repository\<close> gives two configurations that differ only in \<open>repository\<close>
  different trees.
\<close>

theorem repository_read_by_hook:
  "remarkGithub \<lparr>repository = Some ''a/b'', mentionStrong = None, buildUrlOpt = Some repositoryBuildUrl\<rparr>
     (Other ''root'' None [Other ''paragraph'' None [Text ''@tivie'']]) =
     Inr (Other ''root'' None [Other ''paragraph'' None
            [Link ''https://github.com/a/b'' None [Strong [Text ''@tivie'']]]]) \<and>
   remarkGithub \<lparr>repository = None, mentionStrong = None, buildUrlOpt = Some repositoryBuildUrl\<rparr>
     (Other ''root'' None [Other ''paragraph'' None [Text ''@tivie'']]) =
     Inr (Other ''root'' None [Other ''paragraph'' None
            [Link ''https://github.com/tivie'' None [Strong [Text ''@tivie'']]]])"
  by code_simp

text \<open>
  C9, amended. Two configurations that differ only in the option \<open>repository\<close> (they
  have the same \<open>mentionStrong\<close> and the same \<open>buildUrl\<close>) give the same result on
  every tree when they have no hook, or a hook that returns the same for both
  options objects as its receiver, as every hook does that does not read
  \<open>this.repository\<close>: the program itself does not read the option.
\<close>

theorem repository_noninterference:
  assumes "mentionStrong o1 = mentionStrong o2" and "buildUrlOpt o1 = buildUrlOpt o2"
    and "\<forall>hook vals. buildUrlOpt o1 = Some hook \<longrightarrow>
           hook (receiver o1) vals defaultBuildUrl = hook (receiver o2) vals defaultBuildUrl"
  shows "remarkGithub o1 tree = remarkGithub o2 tree"
proof -
  from assms(2,3) have b: "buildUrl o1 = buildUrl o2"
    by (rule buildUrl_agree)
  from assms(1) b have "replaceMention o1 = replaceMention o2"
    by (rule replaceMention_agree)
  moreover from b have "replaceReference o1 = replaceReference o2"
    by (rule replaceReference_agree)
  ultimately show ?thesis
    by (simp add: remarkGithub_def scanText_def referencePair_def mentionPair_def)
qed

theorem repository_noninterference_witness:
  "remarkGithub \<lparr>repository = Some ''wooorm/remark-github'', mentionStrong = None, buildUrlOpt = None\<rparr>
     (Other ''root'' None [Other ''paragraph'' None [Text ''see a/b#1'']]) =
   remarkGithub \<lparr>repository = None, mentionStrong = None, buildUrlOpt = None\<rparr>
     (Other ''root'' None [Other ''paragraph'' None [Text ''see a/b#1'']]) \<and>
   remarkGithub \<lparr>repository = Some ''wooorm/remark-github'', mentionStrong = None,
                  buildUrlOpt = Some appBuildUrl\<rparr>
     (Other ''root'' None [Other ''paragraph'' None [Text ''see a/b#1'']]) =
   remarkGithub \<lparr>repository = None, mentionStrong = None, buildUrlOpt = Some appBuildUrl\<rparr>
     (Other ''root'' None [Other ''paragraph'' None [Text ''see a/b#1'']])"
proof -
  have h: "\<forall>hook vals.
      buildUrlOpt \<lparr>repository = Some ''wooorm/remark-github'', mentionStrong = None,
                   buildUrlOpt = Some appBuildUrl\<rparr> = Some hook \<longrightarrow>
      hook (receiver \<lparr>repository = Some ''wooorm/remark-github'', mentionStrong = None,
                      buildUrlOpt = Some appBuildUrl\<rparr>) vals defaultBuildUrl =
      hook (receiver \<lparr>repository = None, mentionStrong = None, buildUrlOpt = Some appBuildUrl\<rparr>)
        vals defaultBuildUrl"
    by (simp add: appBuildUrl_def)
  show ?thesis
    using h
      repository_noninterference
        [where ?o1.0 = "\<lparr>repository = Some ''wooorm/remark-github'', mentionStrong = None, buildUrlOpt = None\<rparr>"
           and ?o2.0 = "\<lparr>repository = None, mentionStrong = None, buildUrlOpt = None\<rparr>"]
      repository_noninterference
        [where ?o1.0 = "\<lparr>repository = Some ''wooorm/remark-github'', mentionStrong = None,
                          buildUrlOpt = Some appBuildUrl\<rparr>"
           and ?o2.0 = "\<lparr>repository = None, mentionStrong = None, buildUrlOpt = Some appBuildUrl\<rparr>"]
    by simp
qed

end
